theory Spec2Isabelle
  imports Main "HOL-Library.Word" "HOL-Library.While_Combinator" "HOL-Library.Multiset"
begin

section \<open>Pythagorean tuple generators: ptuples.cpp and Experimental/qkptuples.cpp\<close>

text \<open>
  Both programs search for integer solutions of \<open>a\<^sub>1\<^sup>2 + \<dots> + a\<^sub>k\<^sup>2 = b\<^sup>2\<close>.
  \<^verbatim>\<open>ptuples\<close> enumerates every combination of a-values with an odometer of
  "tumblers"; \<^verbatim>\<open>qkptuples\<close> grows tuples from Pythagorean triples.  Both keep their
  results in a table of entries and share the table operations.

  Conventions of the embedding:
  \<^item> a GMP integer (\<^verbatim>\<open>mpz_t\<close>) is an \<open>int\<close>;
  \<^item> a C array passed or stored together with its element count is a list, the count being
    its length; a \<^verbatim>\<open>NULL\<close> array with count 0 is the empty list;
  \<^item> \<^verbatim>\<open>unsigned long\<close> and \<^verbatim>\<open>uint64_t\<close> are 64 bits wide (the programs are built on
    Linux), \<^verbatim>\<open>long\<close> is the signed 64-bit type;
  \<^item> a read outside an array is the error \<open>OutOfBounds\<close>, the use of a null table pointer
    is \<open>NullPointer\<close>; a loop that might not end returns \<open>None\<close> when it does not;
  \<^item> memory allocation is taken to succeed.
\<close>

subsection \<open>Data model\<close>

text \<open>\<^verbatim>\<open>struct tentry { long a_count; mpz_t* a; mpz_t b; }\<close>: the a-values and the b-value.\<close>

record tentry =
  tentry_a :: "int list"
  tentry_b :: int

text \<open>\<^verbatim>\<open>struct ttable { long count; struct tentry* tuples; }\<close>.\<close>

type_synonym ttable = "tentry list"

datatype error = OutOfBounds | NullPointer

text \<open>A checked array read.\<close>

definition rd :: "'a list \<Rightarrow> int \<Rightarrow> error + 'a" where
  "rd xs i = (if 0 \<le> i \<and> i < int (length xs) then Inr (xs ! nat i) else Inl OutOfBounds)"

subsection \<open>The GMP primitives the programs call\<close>

text \<open>\<^verbatim>\<open>mpz_cmp\<close>: positive, zero or negative as \<open>x\<close> is above, equal to or below \<open>y\<close>.\<close>

definition mpz_cmp :: "int \<Rightarrow> int \<Rightarrow> int" where
  "mpz_cmp x y = (if x < y then - 1 else if x = y then 0 else 1)"

text \<open>\<^verbatim>\<open>mpz_gcd\<close>: the greatest common divisor, never negative, \<open>0\<close> for two zeros.\<close>

definition mpz_gcd :: "int \<Rightarrow> int \<Rightarrow> int" where
  "mpz_gcd x y = gcd x y"

text \<open>
  \<^verbatim>\<open>mpz_sqrt\<close>: the truncated integer part of the square root, computed here two bits at a
  time.  The programs call it on non-negative values only.
\<close>

fun sqrt_nat :: "nat \<Rightarrow> nat" where
  "sqrt_nat n =
     (if n < 4 then (if n = 0 then 0 else 1)
      else (let r = 2 * sqrt_nat (n div 4) in if (r + 1) * (r + 1) \<le> n then r + 1 else r))"

declare sqrt_nat.simps [simp del]

definition mpz_sqrt :: "int \<Rightarrow> int" where
  "mpz_sqrt x = int (sqrt_nat (nat x))"

text \<open>\<^verbatim>\<open>mpz_perfect_square_p\<close>: non-zero exactly for the squares \<open>0, 1, 4, 9, \<dots>\<close>.\<close>

definition mpz_perfect_square_p :: "int \<Rightarrow> bool" where
  "mpz_perfect_square_p x = (0 \<le> x \<and> mpz_sqrt x * mpz_sqrt x = x)"

text \<open>
  \<^verbatim>\<open>mpz_get_ui\<close>: the least significant 64 bits of the absolute value.
\<close>

definition mpz_get_ui :: "int \<Rightarrow> int" where
  "mpz_get_ui x = \<bar>x\<bar> mod 2 ^ 64"

text \<open>Conversions between \<^verbatim>\<open>long\<close> and \<^verbatim>\<open>unsigned long\<close>.\<close>

definition to_ulong :: "int \<Rightarrow> int" where
  "to_ulong x = x mod 2 ^ 64"

definition to_long :: "int \<Rightarrow> int" where
  "to_long x = (if x mod 2 ^ 64 < 2 ^ 63 then x mod 2 ^ 64 else x mod 2 ^ 64 - 2 ^ 64)"

subsection \<open>Primitivity test\<close>

text \<open>
  The \<^verbatim>\<open>for\<close> loop of \<^verbatim>\<open>TupleIsPrimitive\<close> over \<^verbatim>\<open>avalues[2..]\<close>: it folds each value into
  the running gcd and stops as soon as the gcd is 1.  The result is the gcd reached and the
  flag \<^verbatim>\<open>IsPrimitive\<close>.
\<close>

fun gcd_loop :: "int \<Rightarrow> int list \<Rightarrow> int \<times> bool" where
  "gcd_loop g [] = (g, False)"
| "gcd_loop g (x # xs) =
     (let g' = mpz_gcd g x in if mpz_cmp g' 1 = 0 then (g', True) else gcd_loop g' xs)"

text \<open>
  \<^verbatim>\<open>TupleIsPrimitive\<close> returns what it printed and its return value.
\<close>

definition TupleIsPrimitive :: "int list \<Rightarrow> int \<Rightarrow> string list \<times> bool" where
  "TupleIsPrimitive avalues b =
     (if length avalues < 2
      then ([''Internal Error:  TuplesIsPrimitive().  acount < 2.''], False)
      else
        (let g0 = mpz_gcd (avalues ! 0) (avalues ! 1) in
         if mpz_cmp g0 1 = 0 then ([], True)
         else
           (case gcd_loop g0 (drop 2 avalues) of
              (g, True) \<Rightarrow> ([], True)
            | (g, False) \<Rightarrow> ([], mpz_cmp (mpz_gcd g b) 1 = 0))))"

subsection \<open>The table of squares of ptuples\<close>

text \<open>
  \<^verbatim>\<open>for ( i = 1; i <= numsqrs; i++ ) sqrs[i-1] = i*i;\<close> with 64-bit multiplication.
\<close>

definition sqrs_table :: "nat \<Rightarrow> 64 word list" where
  "sqrs_table numsqrs = map (\<lambda>i. (word_of_nat i * word_of_nat i :: 64 word)) [1..<Suc numsqrs]"

text \<open>\<^verbatim>\<open>const unsigned int MAXB = 4294967294U;\<close>\<close>

definition MAXB :: int where
  "MAXB = 4294967294"

subsection \<open>The C library's qsort and bsearch\<close>

text \<open>
  \<^verbatim>\<open>qsort\<close> sorts an array in ascending order of the comparison function; the order of
  elements that compare equal is unspecified.  Every use in the programs sorts values that
  are equal when they compare equal (a-values; entries of one table, which all have the same
  number of a-values), so all sorting algorithms return the same array.  The model is
  insertion sort.
\<close>

fun insert_by :: "('a \<Rightarrow> 'a \<Rightarrow> int) \<Rightarrow> 'a \<Rightarrow> 'a list \<Rightarrow> 'a list" where
  "insert_by cmpfunc x [] = [x]"
| "insert_by cmpfunc x (y # ys) =
     (if cmpfunc x y \<le> 0 then x # y # ys else y # insert_by cmpfunc x ys)"

definition qsort :: "('a \<Rightarrow> 'a \<Rightarrow> int) \<Rightarrow> 'a list \<Rightarrow> 'a list" where
  "qsort cmpfunc xs = foldr (insert_by cmpfunc) xs []"

text \<open>
  \<^verbatim>\<open>bsearch\<close> returns a pointer to some element that compares equal to the key, or
  \<^verbatim>\<open>NULL\<close>.  The model is the binary search of the GNU C library, on the index range
  \<open>[l, u)\<close>; it returns the index of the element found.
\<close>

function bsearch_loop :: "('k \<Rightarrow> 'a \<Rightarrow> int) \<Rightarrow> 'k \<Rightarrow> 'a list \<Rightarrow> nat \<Rightarrow> nat \<Rightarrow> nat option" where
  "bsearch_loop compar key base l u =
     (if l < u then
        (let idx = (l + u) div 2; comparison = compar key (base ! idx) in
         if comparison < 0 then bsearch_loop compar key base l idx
         else if comparison > 0 then bsearch_loop compar key base (idx + 1) u
         else Some idx)
      else None)"
  by pat_completeness auto
termination
  by (relation "measure (\<lambda>(compar, key, base, l, u). u - l)") auto

declare bsearch_loop.simps [simp del]

definition bsearch :: "('k \<Rightarrow> 'a \<Rightarrow> int) \<Rightarrow> 'k \<Rightarrow> 'a list \<Rightarrow> nat option" where
  "bsearch compar key base = bsearch_loop compar key base 0 (length base)"

subsection \<open>Table operations shared by the two programs\<close>

definition tentry_avalues_cmpfunc :: "int \<Rightarrow> int \<Rightarrow> int" where
  "tentry_avalues_cmpfunc avalue1 avalue2 = mpz_cmp avalue1 avalue2"

definition ttable_tentry_Bonly_cmpfunc :: "tentry \<Rightarrow> tentry \<Rightarrow> int" where
  "ttable_tentry_Bonly_cmpfunc entry1 entry2 = mpz_cmp (tentry_b entry1) (tentry_b entry2)"

text \<open>
  The loop of \<^verbatim>\<open>ttable_tentry_cmpfunc\<close>: it walks both a-vectors up to the shorter
  length while the values compare equal.
\<close>

fun avalues_cmp :: "int list \<Rightarrow> int list \<Rightarrow> int" where
  "avalues_cmp (x # xs) (y # ys) =
     (let cmpval = mpz_cmp x y in if cmpval = 0 then avalues_cmp xs ys else cmpval)"
| "avalues_cmp xs ys = 0"

definition ttable_tentry_cmpfunc :: "tentry \<Rightarrow> tentry \<Rightarrow> int" where
  "ttable_tentry_cmpfunc entry1 entry2 =
     (let cmpval = mpz_cmp (tentry_b entry1) (tentry_b entry2) in
      if cmpval = 0 then avalues_cmp (tentry_a entry1) (tentry_a entry2) else cmpval)"

text \<open>
  \<^verbatim>\<open>MovePTuple\<close> appends an entry that takes over the array \<open>avalues\<close>, sorts its
  a-values and copies \<open>b\<close>.
\<close>

definition MovePTuple :: "ttable \<Rightarrow> int list \<Rightarrow> int \<Rightarrow> ttable" where
  "MovePTuple the_ttable avalues b =
     the_ttable @ [\<lparr>tentry_a = qsort tentry_avalues_cmpfunc avalues, tentry_b = b\<rparr>]"

text \<open>
  \<^verbatim>\<open>CheckForDuplicateTuple\<close> compares the first \<open>acount\<close> values of two arrays and stops at
  the first difference.  With \<open>acount = 0\<close> it reads nothing and answers "duplicate".
\<close>

fun check_dup :: "int list \<Rightarrow> int list \<Rightarrow> nat \<Rightarrow> error + bool" where
  "check_dup avalues1 avalues2 0 = Inr True"
| "check_dup (x # xs) (y # ys) (Suc n) =
     (if mpz_cmp x y \<noteq> 0 then Inr False else check_dup xs ys n)"
| "check_dup xs ys (Suc n) = Inl OutOfBounds"

definition CheckForDuplicateTuple :: "int list \<Rightarrow> int list \<Rightarrow> int \<Rightarrow> error + bool" where
  "CheckForDuplicateTuple avalues1 avalues2 acount = check_dup avalues1 avalues2 (nat acount)"

text \<open>The slot of an entry after its array has been moved out: \<^verbatim>\<open>a_count = 0; a = NULL\<close>.\<close>

definition moved_out :: "tentry \<Rightarrow> tentry" where
  "moved_out e = e\<lparr>tentry_a := []\<rparr>"

subsection \<open>Deduplication in ptuples\<close>

function NumDupsAhead_loop :: "ttable \<Rightarrow> nat \<Rightarrow> nat \<Rightarrow> error + nat" where
  "NumDupsAhead_loop the_table i DupCount =
     (if int i < int (length the_table) - 1 then
        (case CheckForDuplicateTuple (tentry_a (the_table ! i)) (tentry_a (the_table ! (i + 1)))
                (int (length (tentry_a (the_table ! i)))) of
           Inl e \<Rightarrow> Inl e
         | Inr True \<Rightarrow> NumDupsAhead_loop the_table (i + 1) (DupCount + 1)
         | Inr False \<Rightarrow> Inr DupCount)
      else Inr DupCount)"
  by pat_completeness auto
termination
  by (relation "measure (\<lambda>(the_table, i, DupCount). length the_table - i)") auto

declare NumDupsAhead_loop.simps [simp del]

definition NumDupsAhead :: "ttable \<Rightarrow> nat \<Rightarrow> error + nat" where
  "NumDupsAhead the_table curindex = NumDupsAhead_loop the_table curindex 0"

function RemDupTuples_loop :: "ttable \<Rightarrow> ttable \<Rightarrow> nat \<Rightarrow> error + ttable" where
  "RemDupTuples_loop the_table new_table i =
     (if i < length the_table then
        (case NumDupsAhead the_table i of
           Inl e \<Rightarrow> Inl e
         | Inr skip \<Rightarrow>
             RemDupTuples_loop (the_table[i := moved_out (the_table ! i)])
               (MovePTuple new_table (tentry_a (the_table ! i)) (tentry_b (the_table ! i)))
               (i + skip + 1))
      else Inr new_table)"
  by pat_completeness auto
termination
  by (relation "measure (\<lambda>(the_table, new_table, i). length the_table - i)") auto

declare RemDupTuples_loop.simps [simp del]

definition RemDupTuples :: "ttable \<Rightarrow> error + ttable" where
  "RemDupTuples the_table =
     (if length the_table \<le> 1 then Inr the_table
      else RemDupTuples_loop (qsort ttable_tentry_cmpfunc the_table) [] 0)"

subsection \<open>Deduplication in qkptuples\<close>

function qk_RemDupTuples_loop :: "ttable \<Rightarrow> ttable \<Rightarrow> nat \<Rightarrow> error + ttable" where
  "qk_RemDupTuples_loop the_table new_table i =
     (if i < length the_table then
        (case (if i > 0
               then CheckForDuplicateTuple (tentry_a (the_table ! (i - 1))) (tentry_a (the_table ! i))
                      (int (length (tentry_a (the_table ! (i - 1)))))
               else Inr False) of
           Inl e \<Rightarrow> Inl e
         | Inr IsDuplicateTuple \<Rightarrow>
             if \<not> IsDuplicateTuple
             then qk_RemDupTuples_loop (the_table[i := moved_out (the_table ! i)])
                    (MovePTuple new_table (tentry_a (the_table ! i)) (tentry_b (the_table ! i)))
                    (i + 1)
             else qk_RemDupTuples_loop the_table new_table (i + 1))
      else Inr new_table)"
  by pat_completeness auto
termination
  by (relation "measure (\<lambda>(the_table, new_table, i). length the_table - i)") auto

declare qk_RemDupTuples_loop.simps [simp del]

definition qk_RemDupTuples :: "ttable \<Rightarrow> error + ttable" where
  "qk_RemDupTuples the_table =
     (if length the_table \<le> 1 then Inr the_table
      else qk_RemDupTuples_loop (qsort ttable_tentry_cmpfunc the_table) [] 0)"

subsection \<open>Search by b-value in qkptuples\<close>

text \<open>The backward scan of \<^verbatim>\<open>GetFirstBIndex\<close>.\<close>

function scan_back :: "ttable \<Rightarrow> int \<Rightarrow> int \<Rightarrow> int" where
  "scan_back the_table B index =
     (if index > 1 \<and> mpz_cmp (tentry_b (the_table ! nat (index - 1))) B = 0
      then scan_back the_table B (index - 1) else index)"
  by pat_completeness auto
termination
  by (relation "measure (\<lambda>(the_table, B, index). nat index)") auto

declare scan_back.simps [simp del]

definition GetFirstBIndex :: "ttable \<Rightarrow> int \<Rightarrow> int" where
  "GetFirstBIndex the_table B =
     (case bsearch ttable_tentry_Bonly_cmpfunc \<lparr>tentry_a = [], tentry_b = B\<rparr> the_table of
        None \<Rightarrow> - 1
      | Some found_entry \<Rightarrow> scan_back the_table B (int found_entry))"

subsection \<open>The exhaustive engine of ptuples\<close>

text \<open>
  The state of the enumeration in \<^verbatim>\<open>BuildNTuples\<close>: the index \<open>i\<close> into the tumbler
  arrays, the arrays \<^verbatim>\<open>sqrindextumbler\<close> (of \<^verbatim>\<open>long\<close>) and \<^verbatim>\<open>subtotaltumbler\<close>, and the
  table of the candidates recorded so far.
\<close>

record tumblers =
  tumbler_i :: int
  sqrindextumbler :: "int list"
  subtotaltumbler :: "int list"
  tmp_table :: ttable

text \<open>
  \<^verbatim>\<open>for ( ; i < lasttumbler; i++ )\<close>: the subtotals of the tumblers from \<open>i\<close> up to the
  one before the last.
\<close>

function fill_subtotals :: "64 word list \<Rightarrow> int \<Rightarrow> tumblers \<Rightarrow> error + tumblers" where
  "fill_subtotals sqrs lasttumbler st =
     (if tumbler_i st < lasttumbler then
        (case rd (sqrindextumbler st) (tumbler_i st) of
           Inl e \<Rightarrow> Inl e
         | Inr sqrindex \<Rightarrow>
        (case rd sqrs sqrindex of
           Inl e \<Rightarrow> Inl e
         | Inr sq \<Rightarrow>
        (if tumbler_i st > 0 then
           (case rd (subtotaltumbler st) (tumbler_i st - 1) of
              Inl e \<Rightarrow> Inl e
            | Inr prev \<Rightarrow>
                fill_subtotals sqrs lasttumbler
                  (st\<lparr>subtotaltumbler := (subtotaltumbler st)[nat (tumbler_i st) := uint sq + prev],
                      tumbler_i := tumbler_i st + 1\<rparr>))
         else
           fill_subtotals sqrs lasttumbler
             (st\<lparr>subtotaltumbler := (subtotaltumbler st)[nat (tumbler_i st) := uint sq],
                 tumbler_i := tumbler_i st + 1\<rparr>))))
      else Inr st)"
  by pat_completeness auto
termination
  by (relation "measure (\<lambda>(sqrs, lasttumbler, st). nat (lasttumbler - tumbler_i st))") auto

declare fill_subtotals.simps [simp del]

text \<open>
  The index the skip-ahead jumps to, from \<open>tempZ = b_min\<^sup>2 - subtotaltumbler[i-1]\<close>
  (at least 1): the square root less one, capped at \<open>numsqrs - 1\<close> in
  \<^verbatim>\<open>unsigned long\<close> arithmetic.
\<close>

definition skip_sqrindex :: "int \<Rightarrow> int \<Rightarrow> int" where
  "skip_sqrindex numsqrs tempZ =
     (let sqrindex = mpz_get_ui (mpz_sqrt tempZ);
          sqrindex = (if sqrindex > 0 then sqrindex - 1 else sqrindex);
          sqrindex = (if sqrindex \<ge> numsqrs then to_ulong (numsqrs - 1) else sqrindex)
      in sqrindex)"

text \<open>
  The statements from "set last subtotal" to the end of the skip-ahead: the total of the
  squares of all a-values, and on the first visit of the last tumbler (index value 0) the
  jump.
\<close>

definition last_subtotal :: "64 word list \<Rightarrow> int \<Rightarrow> int \<Rightarrow> tumblers \<Rightarrow> error + tumblers" where
  "last_subtotal sqrs numsqrs b_min_sqr st =
     (let i = tumbler_i st in
      case rd (subtotaltumbler st) (i - 1) of
        Inl e \<Rightarrow> Inl e
      | Inr prev \<Rightarrow>
     (case rd (sqrindextumbler st) i of
        Inl e \<Rightarrow> Inl e
      | Inr sqrindex0 \<Rightarrow>
     (case rd sqrs sqrindex0 of
        Inl e \<Rightarrow> Inl e
      | Inr sq \<Rightarrow>
          (let st1 = st\<lparr>subtotaltumbler := (subtotaltumbler st)[nat i := prev + uint sq]\<rparr>;
               tempZ = b_min_sqr - prev
           in if sqrindex0 = 0 \<and> tempZ \<ge> 1 then
                (let sqrindex = to_long (skip_sqrindex numsqrs tempZ) in
                 case rd sqrs sqrindex of
                   Inl e \<Rightarrow> Inl e
                 | Inr sq' \<Rightarrow>
                     Inr (st1\<lparr>sqrindextumbler := (sqrindextumbler st1)[nat i := sqrindex],
                              subtotaltumbler := (subtotaltumbler st1)[nat i := prev + uint sq']\<rparr>))
              else Inr st1))))"

text \<open>
  \<^verbatim>\<open>SaveToTuple\<close>: the a-values are the square indices plus one, \<open>b\<close> is the square root
  of the total.
\<close>

definition SaveToTuple :: "ttable \<Rightarrow> int list \<Rightarrow> int \<Rightarrow> ttable" where
  "SaveToTuple the_table sqrindexes b_sqr =
     MovePTuple the_table (map (\<lambda>sqrindex. to_ulong (sqrindex + 1)) sqrindexes) (mpz_sqrt b_sqr)"

text \<open>
  The \<^verbatim>\<open>while\<close> loop that carries: a tumbler at or past \<open>numsqrs\<close> goes back to 0 and the
  one before it advances, or jumps to \<open>numsqrs\<close> when its subtotal is already over
  \<open>b_max\<^sup>2\<close>.
\<close>

function carry :: "int \<Rightarrow> int \<Rightarrow> tumblers \<Rightarrow> error + tumblers" where
  "carry numsqrs b_max_sqr st =
     (if tumbler_i st \<ge> 0 then
        (case rd (sqrindextumbler st) (tumbler_i st) of
           Inl e \<Rightarrow> Inl e
         | Inr sqrindex \<Rightarrow>
             if to_ulong sqrindex \<ge> numsqrs then
               (let i = tumbler_i st - 1;
                    st1 = st\<lparr>sqrindextumbler := (sqrindextumbler st)[nat (tumbler_i st) := 0],
                             tumbler_i := i\<rparr>
                in if i \<ge> 0 then
                     (case rd (subtotaltumbler st1) i of
                        Inl e \<Rightarrow> Inl e
                      | Inr subtotal \<Rightarrow>
                     (case rd (sqrindextumbler st1) i of
                        Inl e \<Rightarrow> Inl e
                      | Inr sqrindex' \<Rightarrow>
                          carry numsqrs b_max_sqr
                            (st1\<lparr>sqrindextumbler := (sqrindextumbler st1)
                                   [nat i := (if mpz_cmp subtotal b_max_sqr > 0 then to_long numsqrs
                                              else sqrindex' + 1)]\<rparr>)))
                   else carry numsqrs b_max_sqr st1)
             else Inr st)
      else Inr st)"
  by pat_completeness auto
termination
  by (relation "measure (\<lambda>(numsqrs, b_max_sqr, st). nat (tumbler_i st + 1))") auto

declare carry.simps [simp del]

text \<open>
  The range test, the recording of a candidate and the advance of the last tumbler,
  followed by the carry.
\<close>

definition test_and_advance :: "int \<Rightarrow> int \<Rightarrow> int \<Rightarrow> tumblers \<Rightarrow> error + tumblers" where
  "test_and_advance numsqrs b_min_sqr b_max_sqr st =
     (let i = tumbler_i st in
      case rd (subtotaltumbler st) i of
        Inl e \<Rightarrow> Inl e
      | Inr subtotal \<Rightarrow>
     (case rd (sqrindextumbler st) i of
        Inl e \<Rightarrow> Inl e
      | Inr sqrindex \<Rightarrow>
          (let islessthan_b_min = mpz_cmp subtotal b_min_sqr < 0;
               isgreaterthan_b_max = mpz_cmp subtotal b_max_sqr > 0;
               st1 = (if \<not> (islessthan_b_min \<or> isgreaterthan_b_max) \<and> mpz_perfect_square_p subtotal
                      then st\<lparr>tmp_table := SaveToTuple (tmp_table st) (sqrindextumbler st) subtotal\<rparr>
                      else st);
               st2 = st1\<lparr>sqrindextumbler := (sqrindextumbler st1)
                          [nat i := (if isgreaterthan_b_max then to_long numsqrs else sqrindex + 1)]\<rparr>
           in carry numsqrs b_max_sqr st2)))"

text \<open>One pass of the outer loop \<^verbatim>\<open>for ( i = 0; i >= 0; )\<close>.\<close>

definition tumbler_step ::
    "64 word list \<Rightarrow> int \<Rightarrow> int \<Rightarrow> int \<Rightarrow> int \<Rightarrow> tumblers \<Rightarrow> error + tumblers" where
  "tumbler_step sqrs numsqrs lasttumbler b_min_sqr b_max_sqr st =
     (case fill_subtotals sqrs lasttumbler st of
        Inl e \<Rightarrow> Inl e
      | Inr st1 \<Rightarrow>
     (case last_subtotal sqrs numsqrs b_min_sqr st1 of
        Inl e \<Rightarrow> Inl e
      | Inr st2 \<Rightarrow> test_and_advance numsqrs b_min_sqr b_max_sqr st2))"

text \<open>
  The outer loop runs while no read has failed and \<open>i \<ge> 0\<close>; the result is \<open>None\<close> when
  it never ends.
\<close>

definition running :: "error + tumblers \<Rightarrow> bool" where
  "running r = (case r of Inl e \<Rightarrow> False | Inr st \<Rightarrow> tumbler_i st \<ge> 0)"

definition tumbler_loop ::
    "64 word list \<Rightarrow> int \<Rightarrow> int \<Rightarrow> int \<Rightarrow> int \<Rightarrow> tumblers \<Rightarrow> (error + tumblers) option" where
  "tumbler_loop sqrs numsqrs lasttumbler b_min_sqr b_max_sqr st =
     while_option running
       (\<lambda>r. case r of Inl e \<Rightarrow> Inl e
             | Inr s \<Rightarrow> tumbler_step sqrs numsqrs lasttumbler b_min_sqr b_max_sqr s)
       (Inr st)"

text \<open>
  The last loop of \<^verbatim>\<open>BuildNTuples\<close> moves the entries to the final table, in primitive
  mode only those that \<^verbatim>\<open>TupleIsPrimitive\<close> accepts.  The result is what was printed
  meanwhile and the final table.
\<close>

fun move_tuples :: "bool \<Rightarrow> ttable \<Rightarrow> string list \<times> ttable \<Rightarrow> string list \<times> ttable" where
  "move_tuples DoOnlyPrimitives [] (out, final_table) = (out, final_table)"
| "move_tuples DoOnlyPrimitives (e # es) (out, final_table) =
     (if DoOnlyPrimitives then
        (case TupleIsPrimitive (tentry_a e) (tentry_b e) of
           (msgs, prim) \<Rightarrow>
             if \<not> prim then move_tuples DoOnlyPrimitives es (out @ msgs, final_table)
             else move_tuples DoOnlyPrimitives es
                    (out @ msgs, MovePTuple final_table (tentry_a e) (tentry_b e)))
      else move_tuples DoOnlyPrimitives es
             (out, MovePTuple final_table (tentry_a e) (tentry_b e)))"

text \<open>
  \<^verbatim>\<open>BuildNTuples\<close> of ptuples.  \<open>final_table\<close> is the caller's table, to which the
  entries are appended.
\<close>

definition BuildNTuples ::
    "ttable \<Rightarrow> bool \<Rightarrow> int \<Rightarrow> int \<Rightarrow> int \<Rightarrow> (error + string list \<times> ttable) option" where
  "BuildNTuples final_table DoOnlyPrimitives b_min b_max N =
     (let b_min_sqr = b_min * b_min;
          b_max_sqr = b_max * b_max;
          Amax = b_max - 1;
          numsqrs = mpz_get_ui Amax;
          sqrs = sqrs_table (nat numsqrs);
          numtumblers = N - 1;
          lasttumbler = numtumblers - 1;
          st0 = \<lparr>tumbler_i = 0,
                 sqrindextumbler = replicate (nat numtumblers) 0,
                 subtotaltumbler = replicate (nat numtumblers) 0,
                 tmp_table = []\<rparr>
      in case tumbler_loop sqrs numsqrs lasttumbler b_min_sqr b_max_sqr st0 of
           None \<Rightarrow> None
         | Some (Inl e) \<Rightarrow> Some (Inl e)
         | Some (Inr st) \<Rightarrow>
             (case RemDupTuples (tmp_table st) of
                Inl e \<Rightarrow> Some (Inl e)
              | Inr tmp \<Rightarrow> Some (Inr (move_tuples DoOnlyPrimitives tmp ([], final_table)))))"

subsection \<open>The triple source of qkptuples\<close>

definition AddPTriple :: "ttable \<Rightarrow> int \<Rightarrow> int \<Rightarrow> int \<Rightarrow> ttable" where
  "AddPTriple the_ttable a_0 a_1 b = MovePTuple the_ttable [a_0, a_1] b"

text \<open>
  The loop over \<open>k\<close> in \<^verbatim>\<open>Build3Tuples\<close>: the multiples \<open>k\<cdot>(a, b, c)\<close> with \<open>k\<cdot>c\<close> up to
  \<open>b_max\<close>, those below \<open>b_min\<close> skipped.  It ends only when \<open>c\<cdot>k\<close> grows.
\<close>

partial_function (option) k_loop ::
    "ttable \<Rightarrow> int \<Rightarrow> int \<Rightarrow> int \<Rightarrow> int \<Rightarrow> int \<Rightarrow> int \<Rightarrow> ttable option" where
  "k_loop tuples a b c b_min b_max k =
     (if mpz_cmp (c * k) b_max \<le> 0 then
        (if mpz_cmp (c * k) b_min < 0 then k_loop tuples a b c b_min b_max (k + 1)
         else k_loop (AddPTriple tuples (a * k) (b * k) (c * k)) a b c b_min b_max (k + 1))
      else Some tuples)"

declare k_loop.simps [code]

text \<open>The loop over \<open>m\<close>, in steps of 2 up to \<open>m_max\<close>.\<close>

function m_loop ::
    "ttable \<Rightarrow> bool \<Rightarrow> int \<Rightarrow> int \<Rightarrow> int \<Rightarrow> int \<Rightarrow> int \<Rightarrow> int \<Rightarrow> ttable option" where
  "m_loop tuples DoOnlyPrimitives b_min b_max working_b_min n m_max m =
     (if mpz_cmp m m_max \<le> 0 then
        (if mpz_cmp (mpz_gcd m n) 1 \<noteq> 0
         then m_loop tuples DoOnlyPrimitives b_min b_max working_b_min n m_max (m + 2)
         else if mpz_cmp (m * m + n * n) working_b_min < 0
         then m_loop tuples DoOnlyPrimitives b_min b_max working_b_min n m_max (m + 2)
         else if mpz_cmp (m * m + n * n) b_max > 0
         then m_loop tuples DoOnlyPrimitives b_min b_max working_b_min n m_max (m + 2)
         else if DoOnlyPrimitives
         then m_loop (AddPTriple tuples (m * m - n * n) (m * n * 2) (m * m + n * n))
                DoOnlyPrimitives b_min b_max working_b_min n m_max (m + 2)
         else
           (case k_loop tuples (m * m - n * n) (m * n * 2) (m * m + n * n) b_min b_max
                   (b_min div (m * m + n * n)) of
              None \<Rightarrow> None
            | Some tuples' \<Rightarrow>
                m_loop tuples' DoOnlyPrimitives b_min b_max working_b_min n m_max (m + 2)))
      else Some tuples)"
  by pat_completeness auto
termination
  by (relation "measure (\<lambda>(tuples, DoOnlyPrimitives, b_min, b_max, working_b_min, n, m_max, m).
        nat (m_max + 1 - m))") (auto simp: mpz_cmp_def split: if_splits)

declare m_loop.simps [simp del]

text \<open>The first value of \<open>m\<close> for a given \<open>n\<close>, and the bound \<open>m_max\<close>.\<close>

definition first_m :: "int \<Rightarrow> int \<Rightarrow> int" where
  "first_m working_b_min n =
     (let m_min = working_b_min - n * n;
          m_min = (if mpz_cmp m_min 1 < 0 then 1 else m_min);
          m_min = mpz_sqrt m_min - 1
      in if mpz_cmp n m_min < 0
         then (if (m_min - n) mod 2 = 0 then m_min + 1 else m_min)
         else n + 1)"

definition last_m :: "int \<Rightarrow> int \<Rightarrow> int" where
  "last_m b_max n =
     (let m_max = b_max - n * n;
          m_max = (if mpz_cmp m_max 1 < 0 then 1 else m_max)
      in mpz_sqrt m_max)"

text \<open>The loop over \<open>n\<close>, from 1 up to \<open>n_max\<close>.\<close>

function n_loop ::
    "ttable \<Rightarrow> bool \<Rightarrow> int \<Rightarrow> int \<Rightarrow> int \<Rightarrow> int \<Rightarrow> int \<Rightarrow> ttable option" where
  "n_loop tuples DoOnlyPrimitives b_min b_max working_b_min n_max n =
     (if mpz_cmp n n_max \<le> 0 then
        (case m_loop tuples DoOnlyPrimitives b_min b_max working_b_min n (last_m b_max n)
                (first_m working_b_min n) of
           None \<Rightarrow> None
         | Some tuples' \<Rightarrow>
             n_loop tuples' DoOnlyPrimitives b_min b_max working_b_min n_max (n + 1))
      else Some tuples)"
  by pat_completeness auto
termination
  by (relation "measure (\<lambda>(tuples, DoOnlyPrimitives, b_min, b_max, working_b_min, n_max, n).
        nat (n_max + 1 - n))") (auto simp: mpz_cmp_def split: if_splits)

declare n_loop.simps [simp del]

text \<open>
  \<^verbatim>\<open>Build3Tuples\<close>: Euclid's formula for \<open>n\<close> from 1 to the square root of \<open>b_max / 2\<close>
  rounded up (\<^verbatim>\<open>mpz_cdiv_q_2exp\<close>).
\<close>

definition Build3Tuples :: "ttable \<Rightarrow> bool \<Rightarrow> int \<Rightarrow> int \<Rightarrow> ttable option" where
  "Build3Tuples tuples DoOnlyPrimitives b_min b_max =
     (let working_b_min = (if DoOnlyPrimitives then b_min else 1);
          n_max = mpz_sqrt (- ((- b_max) div 2))
      in n_loop tuples DoOnlyPrimitives b_min b_max working_b_min n_max 1)"

subsection \<open>The approximate engine of qkptuples\<close>

text \<open>
  The \<^verbatim>\<open>do \<dots> while\<close> loop of \<^verbatim>\<open>BuildNTuples\<close>: for the entry \<open>e\<close> of the smaller table and
  its position \<open>j\<close>, every triple from \<open>index\<close> on whose b-value is \<open>a\<^sub>j\<close> gives a new
  entry, in which the two a-values of the triple stand in the place of \<open>a\<^sub>j\<close>.
\<close>

function subst_loop :: "ttable \<Rightarrow> tentry \<Rightarrow> nat \<Rightarrow> nat \<Rightarrow> ttable \<Rightarrow> ttable" where
  "subst_loop threetuple e j index beingbuilt_table =
     (let avalues = take j (tentry_a e) @
                    [tentry_a (threetuple ! index) ! 0, tentry_a (threetuple ! index) ! 1] @
                    drop (j + 1) (tentry_a e);
          beingbuilt_table = MovePTuple beingbuilt_table avalues (tentry_b e)
      in if index + 1 < length threetuple \<and>
            mpz_cmp (tentry_a e ! j) (tentry_b (threetuple ! (index + 1))) = 0
         then subst_loop threetuple e j (index + 1) beingbuilt_table
         else beingbuilt_table)"
  by pat_completeness auto
termination
  by (relation "measure (\<lambda>(threetuple, e, j, index, beingbuilt_table). length threetuple - index)")
    auto

declare subst_loop.simps [simp del]

text \<open>The loop over the positions \<open>j\<close> of one entry.\<close>

definition subst_entry :: "ttable \<Rightarrow> tentry \<Rightarrow> ttable \<Rightarrow> ttable" where
  "subst_entry threetuple e beingbuilt_table =
     fold (\<lambda>j tbl. let index = GetFirstBIndex threetuple (tentry_a e ! j) in
                    if index \<ge> 0 then subst_loop threetuple e j (nat index) tbl else tbl)
       [0..<length (tentry_a e)] beingbuilt_table"

text \<open>The loop over the entries of the smaller table.\<close>

definition grow_table :: "ttable \<Rightarrow> ttable \<Rightarrow> ttable" where
  "grow_table threetuple onesmaller_table = fold (subst_entry threetuple) onesmaller_table []"

text \<open>
  The loop over the tuple sizes from \<open>tsize\<close> to \<open>N\<close>.  \<open>beingbuilt_table\<close> is the table
  built last, \<open>None\<close> while it is the null pointer.
\<close>

function grow_sizes ::
    "ttable \<Rightarrow> int \<Rightarrow> int \<Rightarrow> ttable \<Rightarrow> ttable option \<Rightarrow> error + ttable option" where
  "grow_sizes threetuple N tsize onesmaller_table beingbuilt_table =
     (if tsize \<le> N then
        (let onesmaller_table =
               (if tsize > 4 then (case beingbuilt_table of None \<Rightarrow> [] | Some t \<Rightarrow> t)
                else onesmaller_table)
         in case qk_RemDupTuples (grow_table threetuple onesmaller_table) of
              Inl e \<Rightarrow> Inl e
            | Inr t \<Rightarrow> grow_sizes threetuple N (tsize + 1) onesmaller_table (Some t))
      else Inr beingbuilt_table)"
  by pat_completeness auto
termination
  by (relation "measure (\<lambda>(threetuple, N, tsize, onesmaller_table, beingbuilt_table).
        nat (N + 1 - tsize))") auto

declare grow_sizes.simps [simp del]

text \<open>The first smaller table: the triples with \<open>b \<ge> b_min\<close>.\<close>

definition initial_onesmaller :: "ttable \<Rightarrow> int \<Rightarrow> ttable" where
  "initial_onesmaller threetuple b_min =
     fold (\<lambda>e tbl. if mpz_cmp (tentry_b e) b_min \<ge> 0
                    then MovePTuple tbl [tentry_a e ! 0, tentry_a e ! 1] (tentry_b e) else tbl)
       threetuple []"

text \<open>\<^verbatim>\<open>BuildNTuples\<close> of qkptuples.\<close>

definition qk_BuildNTuples ::
    "ttable \<Rightarrow> bool \<Rightarrow> int \<Rightarrow> int \<Rightarrow> int \<Rightarrow> (error + string list \<times> ttable) option" where
  "qk_BuildNTuples tuples DoOnlyPrimitives b_min b_max N =
     (if N = 3 then
        (case Build3Tuples tuples DoOnlyPrimitives b_min b_max of
           None \<Rightarrow> None
         | Some tuples' \<Rightarrow> Some (Inr ([], qsort ttable_tentry_cmpfunc tuples')))
      else
        (case Build3Tuples [] False 5 b_max of
           None \<Rightarrow> None
         | Some threetuple' \<Rightarrow>
             (let threetuple = qsort ttable_tentry_cmpfunc threetuple' in
              case grow_sizes threetuple N 4 (initial_onesmaller threetuple b_min) None of
                Inl e \<Rightarrow> Some (Inl e)
              | Inr None \<Rightarrow> Some (Inl NullPointer)
              | Inr (Some beingbuilt_table) \<Rightarrow>
                  (case move_tuples DoOnlyPrimitives beingbuilt_table ([], tuples) of
                     (out, tuples') \<Rightarrow> Some (Inr (out, qsort ttable_tentry_cmpfunc tuples'))))))"

subsection \<open>The two main programs\<close>

text \<open>
  The command line after the C library has read it: \<open>argc\<close>, whether \<^verbatim>\<open>argv[1]\<close> is
  \<^verbatim>\<open>-p\<close>, the value \<^verbatim>\<open>atol\<close> returns for the tuple size and the values
  \<^verbatim>\<open>mpz_init_set_str\<close> stores for \<open>b_min\<close> and \<open>b_max\<close> (0 for a malformed number).
\<close>

record cmdline =
  argc :: int
  argv1_is_p :: bool
  tuple_size :: int
  user_b_min :: int
  user_b_max :: int

text \<open>
  What a program prints: a text, or the line \<^verbatim>\<open>(a_1,...,a_k,b)\<close> of a tuple.
\<close>

datatype printed = Text string | TupleLine "int list" int

definition print_tuples :: "ttable \<Rightarrow> printed list" where
  "print_tuples tuples = map (\<lambda>e. TupleLine (tentry_a e) (tentry_b e)) tuples"

definition is_tuple_line :: "printed \<Rightarrow> bool" where
  "is_tuple_line p = (case p of Text s \<Rightarrow> False | TupleLine as b \<Rightarrow> True)"

text \<open>\<^verbatim>\<open>main\<close> of ptuples: the output and the exit code.\<close>

definition ptuples_main :: "cmdline \<Rightarrow> (error + printed list \<times> int) option" where
  "ptuples_main c =
     (if argc c \<noteq> 4 \<and> argc c \<noteq> 5
      then Some (Inr ([Text ''Usage: ptuples [-p] tuple_size b_min b_max''], 1))
      else
        (let DoOnlyPrimitives = (argc c = 5 \<and> argv1_is_p c) in
         if tuple_size c < 3
         then Some (Inr ([Text ''tuple size must be >= 3.  Aborting.''], 1))
         else if mpz_cmp (user_b_min c) 1 < 0
         then Some (Inr ([Text ''b_min must be >= 1.  Aborting.''], 1))
         else if mpz_cmp (user_b_min c) (user_b_max c) > 0
         then Some (Inr ([Text ''b_min must be <= b_max.  Aborting.''], 1))
         else if mpz_cmp (user_b_max c) MAXB > 0
         then Some (Inr ([Text ''b_max must be <= 4294967294.  Aborting.''], 1))
         else
           (case BuildNTuples [] DoOnlyPrimitives (user_b_min c) (user_b_max c) (tuple_size c) of
              None \<Rightarrow> None
            | Some (Inl e) \<Rightarrow> Some (Inl e)
            | Some (Inr (out, tuples)) \<Rightarrow> Some (Inr (map Text out @ print_tuples tuples, 0)))))"

text \<open>\<^verbatim>\<open>main\<close> of qkptuples.\<close>

definition qkptuples_main :: "cmdline \<Rightarrow> (error + printed list \<times> int) option" where
  "qkptuples_main c =
     (if argc c \<noteq> 4 \<and> argc c \<noteq> 5
      then Some (Inr ([Text ''Usage: qkptuples [-p] tuple_size b_min b_max''], 1))
      else
        (let DoOnlyPrimitives = (argc c = 5 \<and> argv1_is_p c) in
         if tuple_size c < 3
         then Some (Inr ([Text ''tuple size must be >= 3.  Aborting.''], 1))
         else if mpz_cmp (user_b_min c) 1 < 0
         then Some (Inr ([Text ''b_min must be >= 1.  Aborting.''], 1))
         else if mpz_cmp (user_b_min c) (user_b_max c) > 0
         then Some (Inr ([Text ''b_min must be <= b_max.  Aborting.''], 1))
         else
           (case qk_BuildNTuples [] DoOnlyPrimitives (user_b_min c) (user_b_max c) (tuple_size c) of
              None \<Rightarrow> None
            | Some (Inl e) \<Rightarrow> Some (Inl e)
            | Some (Inr (out, tuples)) \<Rightarrow> Some (Inr (map Text out @ print_tuples tuples, 0)))))"

subsection \<open>Notions of the specification\<close>

text \<open>The sum of the squares of the a-values.\<close>

definition sum_sqr :: "int list \<Rightarrow> int" where
  "sum_sqr as = sum_list (map (\<lambda>x. x * x) as)"

text \<open>
  The canonical order of the specification: by \<open>b\<close> ascending, then by the a-vector in
  lexicographic order.
\<close>

fun lex_le :: "int list \<Rightarrow> int list \<Rightarrow> bool" where
  "lex_le [] ys = True"
| "lex_le (x # xs) [] = False"
| "lex_le (x # xs) (y # ys) = (x < y \<or> (x = y \<and> lex_le xs ys))"

definition canonical_le :: "tentry \<Rightarrow> tentry \<Rightarrow> bool" where
  "canonical_le e1 e2 =
     (tentry_b e1 < tentry_b e2 \<or>
      (tentry_b e1 = tentry_b e2 \<and> lex_le (tentry_a e1) (tentry_a e2)))"

text \<open>
  Deduplication as the specification words it: of every maximal run of adjacent entries
  with equal a-vectors the first entry survives.
\<close>

function collapse_runs :: "ttable \<Rightarrow> ttable" where
  "collapse_runs [] = []"
| "collapse_runs (e # es) =
     e # collapse_runs (dropWhile (\<lambda>e'. tentry_a e' = tentry_a e) es)"
  by pat_completeness auto
termination
  by (relation "measure length") (auto simp: length_dropWhile_le less_Suc_eq_le)

text \<open>All entries of a table have \<open>n\<close> a-values.\<close>

definition uniform :: "nat \<Rightarrow> ttable \<Rightarrow> bool" where
  "uniform n tbl = list_all (\<lambda>e. length (tentry_a e) = n) tbl"

text \<open>
  Soundness of an entry for the range \<open>[b_min, b_max]\<close>, and the canonical form of an
  entry with \<open>n\<close> a-values.
\<close>

definition entry_sound :: "int \<Rightarrow> int \<Rightarrow> tentry \<Rightarrow> bool" where
  "entry_sound b_min b_max e =
     (sum_sqr (tentry_a e) = tentry_b e * tentry_b e \<and> b_min \<le> tentry_b e \<and> tentry_b e \<le> b_max)"

definition entry_canonical :: "nat \<Rightarrow> tentry \<Rightarrow> bool" where
  "entry_canonical n e = (length (tentry_a e) = n \<and> sorted (tentry_a e))"

text \<open>
  The a-values that square indices stand for (index \<open>k - 1\<close> holds \<open>k\<^sup>2\<close>), and the sum of
  the squares of the first \<open>m\<close> of them.
\<close>

definition avalues_of :: "int list \<Rightarrow> int list" where
  "avalues_of sqrindexes = map (\<lambda>sqrindex. sqrindex + 1) sqrindexes"

definition prefix_sum :: "int list \<Rightarrow> nat \<Rightarrow> int" where
  "prefix_sum sqrindexes m = sum_sqr (avalues_of (take m sqrindexes))"

text \<open>
  The invariant of the outer loop of the exhaustive engine, with \<open>n\<close> tumblers: below the
  current tumbler the square indices are inside the table of squares and the subtotals are
  the sums of the squares selected so far; every recorded entry is sound and canonical.
\<close>

definition prefix_ok :: "int \<Rightarrow> int list \<Rightarrow> int list \<Rightarrow> int \<Rightarrow> bool" where
  "prefix_ok numsqrs sqrindexes subtotals i =
     (\<forall>j. int j < i \<longrightarrow>
          0 \<le> sqrindexes ! j \<and> sqrindexes ! j < numsqrs \<and>
          subtotals ! j = prefix_sum sqrindexes (Suc j))"

definition tumbler_inv :: "int \<Rightarrow> nat \<Rightarrow> int \<Rightarrow> int \<Rightarrow> tumblers \<Rightarrow> bool" where
  "tumbler_inv numsqrs n b_min b_max st =
     (length (sqrindextumbler st) = n \<and> length (subtotaltumbler st) = n \<and>
      tumbler_i st < int n \<and>
      prefix_ok numsqrs (sqrindextumbler st) (subtotaltumbler st) (tumbler_i st) \<and>
      (\<forall>e \<in> set (tmp_table st). entry_sound b_min b_max e \<and> entry_canonical n e))"

text \<open>A table whose entries are all sound for \<open>[lo, hi]\<close> and canonical with \<open>n\<close> a-values.\<close>

definition table_ok :: "int \<Rightarrow> int \<Rightarrow> nat \<Rightarrow> ttable \<Rightarrow> bool" where
  "table_ok lo hi n tbl = list_all (\<lambda>e. entry_sound lo hi e \<and> entry_canonical n e) tbl"

text \<open>
  The Pythagorean triples \<open>(x, y, b)\<close> with \<open>1 \<le> x \<le> y\<close> and \<open>b\<close> in \<open>[lo, hi]\<close>, as a
  table.
\<close>

definition is_triple_entry :: "int \<Rightarrow> int \<Rightarrow> tentry \<Rightarrow> bool" where
  "is_triple_entry lo hi e =
     (\<exists>x y. tentry_a e = [x, y] \<and> 1 \<le> x \<and> x \<le> y \<and>
            x * x + y * y = tentry_b e * tentry_b e \<and> lo \<le> tentry_b e \<and> tentry_b e \<le> hi)"

definition triples_upto :: "int \<Rightarrow> tentry list" where
  "triples_upto hi =
     concat (map (\<lambda>b. concat (map (\<lambda>y. concat (map (\<lambda>x.
        if x * x + y * y = b * b then [\<lparr>tentry_a = [x, y], tentry_b = b\<rparr>] else []) [1..y])) [1..b]))
       [1..hi])"

text \<open>
  A state from which a pass of the outer loop runs without a failing read: \<open>n\<close> tumblers,
  the index \<open>i\<close> between \<open>-1\<close> and \<open>n - 1\<close>, every square index inside the table of squares.
\<close>

definition tumbler_ready :: "int \<Rightarrow> nat \<Rightarrow> tumblers \<Rightarrow> bool" where
  "tumbler_ready numsqrs n st =
     (length (sqrindextumbler st) = n \<and> length (subtotaltumbler st) = n \<and>
      - 1 \<le> tumbler_i st \<and> tumbler_i st < int n \<and>
      list_all (\<lambda>d. 0 \<le> d \<and> d < numsqrs) (sqrindextumbler st))"

text \<open>
  The square indices of \<open>st'\<close> are ahead of those of \<open>st\<close> in the order of the enumeration:
  equal below the tumbler \<open>i\<close> of \<open>st'\<close>, larger at it.
\<close>

definition ahead :: "tumblers \<Rightarrow> tumblers \<Rightarrow> bool" where
  "ahead st' st =
     (take (nat (tumbler_i st')) (sqrindextumbler st') =
        take (nat (tumbler_i st')) (sqrindextumbler st) \<and>
      sqrindextumbler st ! nat (tumbler_i st') < sqrindextumbler st' ! nat (tumbler_i st'))"

text \<open>The number of entries of a table with \<open>b = 5\<close>.\<close>

definition fives :: "ttable \<Rightarrow> nat" where
  "fives tbl = length (filter (\<lambda>e. tentry_b e = 5) tbl)"

subsection \<open>The enumeration of ptuples with unchecked reads of the table of squares\<close>









section \<open>Properties\<close>

subsection \<open>The GMP primitives\<close>

lemma mpz_cmp_simps [simp]:
  "mpz_cmp x y = 0 \<longleftrightarrow> x = y"
  "mpz_cmp x y < 0 \<longleftrightarrow> x < y"
  "mpz_cmp x y > 0 \<longleftrightarrow> x > y"
  "mpz_cmp x y \<le> 0 \<longleftrightarrow> x \<le> y"
  "mpz_cmp x y \<ge> 0 \<longleftrightarrow> x \<ge> y"
  by (auto simp: mpz_cmp_def)

lemma sqrt_nat_bounds: "sqrt_nat n * sqrt_nat n \<le> n \<and> n < (sqrt_nat n + 1) * (sqrt_nat n + 1)"
proof (induction n rule: sqrt_nat.induct)
  case (1 n)
  show ?case
  proof (cases "n < 4")
    case True
    then have "n = 0 \<or> n = 1 \<or> n = 2 \<or> n = 3" by auto
    then show ?thesis
      by (auto simp: sqrt_nat.simps [of 0] sqrt_nat.simps [of 1] sqrt_nat.simps [of 2]
          sqrt_nat.simps [of 3] sqrt_nat.simps [of "Suc 0"])
  next
    case False
    define s where "s = sqrt_nat (n div 4)"
    from 1 False have ih: "s * s \<le> n div 4" "n div 4 < (s + 1) * (s + 1)"
      by (simp_all add: s_def)
    have lo: "(2 * s) * (2 * s) \<le> n"
    proof -
      have "(2 * s) * (2 * s) = 4 * (s * s)" by simp
      also have "\<dots> \<le> 4 * (n div 4)" using ih(1) by simp
      also have "\<dots> \<le> n" by simp
      finally show ?thesis .
    qed
    have hi: "n < (2 * s + 2) * (2 * s + 2)"
    proof -
      have "n div 4 + 1 \<le> (s + 1) * (s + 1)" using ih(2) by simp
      then have "4 * (n div 4) + 4 \<le> 4 * ((s + 1) * (s + 1))" by simp
      moreover have "n < 4 * (n div 4) + 4" by presburger
      moreover have "4 * ((s + 1) * (s + 1)) = (2 * s + 2) * (2 * s + 2)" by (simp add: algebra_simps)
      ultimately show ?thesis by linarith
    qed
    show ?thesis
    proof (cases "(2 * s + 1) * (2 * s + 1) \<le> n")
      case True
      with False hi show ?thesis
        by (simp add: sqrt_nat.simps [of n] s_def [symmetric] Let_def)
    next
      case False
      with \<open>\<not> n < 4\<close> lo show ?thesis
        by (simp add: sqrt_nat.simps [of n] s_def [symmetric] Let_def)
    qed
  qed
qed

lemma mpz_sqrt_nonneg [simp]: "0 \<le> mpz_sqrt x"
  by (simp add: mpz_sqrt_def)

lemma mpz_sqrt_lower: "0 \<le> x \<Longrightarrow> mpz_sqrt x * mpz_sqrt x \<le> x"
proof -
  assume "0 \<le> x"
  have "int (sqrt_nat (nat x) * sqrt_nat (nat x)) \<le> int (nat x)"
    using sqrt_nat_bounds [of "nat x"] by (simp only: of_nat_le_iff)
  with \<open>0 \<le> x\<close> show ?thesis by (simp add: mpz_sqrt_def)
qed

lemma mpz_sqrt_upper: "x < (mpz_sqrt x + 1) * (mpz_sqrt x + 1)"
proof -
  have "int (nat x) < int ((sqrt_nat (nat x) + 1) * (sqrt_nat (nat x) + 1))"
    using sqrt_nat_bounds [of "nat x"] by (simp only: of_nat_less_iff)
  then show ?thesis by (simp add: mpz_sqrt_def algebra_simps split: if_splits)
qed

lemma mpz_perfect_square_p_sqrt:
  "mpz_perfect_square_p x \<Longrightarrow> mpz_sqrt x * mpz_sqrt x = x"
  by (simp add: mpz_perfect_square_p_def)

subsection \<open>Primitivity test\<close>

lemma gcd_loop_flag:
  "gcd_loop g xs = (g', True) \<Longrightarrow> Gcd (insert g (set xs)) = 1"
proof (induction xs arbitrary: g)
  case Nil
  then show ?case by simp
next
  case (Cons x xs)
  show ?case
  proof (cases "gcd g x = 1")
    case True
    then have "Gcd (insert g (insert x (set xs))) = 1"
      by (metis Gcd_insert gcd.assoc gcd.bottom_left_bottom)
    then show ?thesis by simp
  next
    case False
    with Cons.prems have "gcd_loop (gcd g x) xs = (g', True)"
      by (simp add: mpz_gcd_def Let_def)
    from Cons.IH [OF this] show ?thesis
      by (simp add: gcd.assoc)
  qed
qed

lemma gcd_loop_no_flag:
  "gcd_loop g xs = (g', False) \<Longrightarrow> 0 \<le> g \<Longrightarrow> g' = gcd g (Gcd (set xs))"
proof (induction xs arbitrary: g)
  case Nil
  then show ?case by simp
next
  case (Cons x xs)
  from Cons.prems have "gcd_loop (gcd g x) xs = (g', False)"
    by (simp add: mpz_gcd_def Let_def split: if_splits)
  from Cons.IH [OF this] show ?case
    by (simp add: gcd.assoc)
qed

lemma avalues_split: "2 \<le> length as \<Longrightarrow> as = as ! 0 # as ! 1 # drop 2 as"
  by (cases as; cases "tl as") auto

lemma Gcd_tuple:
  fixes b :: int
  assumes "2 \<le> length as"
  shows "Gcd (set (b # as)) = gcd (gcd (gcd (as ! 0) (as ! 1)) (Gcd (set (drop 2 as)))) b"
proof -
  have "Gcd (set (b # as)) = Gcd (set (b # as ! 0 # as ! 1 # drop 2 as))"
    using avalues_split [OF assms] by simp
  also have "\<dots> = gcd b (gcd (as ! 0) (gcd (as ! 1) (Gcd (set (drop 2 as)))))"
    by simp
  also have "\<dots> = gcd (gcd (gcd (as ! 0) (as ! 1)) (Gcd (set (drop 2 as)))) b"
    by (simp add: ac_simps)
  finally show ?thesis .
qed

lemma TupleIsPrimitive_long:
  assumes len: "2 \<le> length avalues"
  shows "TupleIsPrimitive avalues b = ([], Gcd (set (b # avalues)) = 1)"
proof -
  define g0 where "g0 = gcd (avalues ! 0) (avalues ! 1)"
  define rest where "rest = drop 2 avalues"
  have G: "Gcd (set (b # avalues)) = gcd (gcd g0 (Gcd (set rest))) b"
    unfolding g0_def rest_def by (rule Gcd_tuple [OF len])
  show ?thesis
  proof (cases "g0 = 1")
    case True
    with G have "Gcd (set (b # avalues)) = 1" by simp
    with len True show ?thesis
      by (simp add: TupleIsPrimitive_def mpz_gcd_def g0_def Let_def)
  next
    case False
    obtain g p where loop: "gcd_loop g0 rest = (g, p)"
      by (cases "gcd_loop g0 rest")
    show ?thesis
    proof (cases p)
      case True
      with loop have "gcd_loop g0 rest = (g, True)" by simp
      then have "Gcd (insert g0 (set rest)) = 1"
        by (rule gcd_loop_flag)
      then have "gcd g0 (Gcd (set rest)) = 1" by simp
      with G have "Gcd (set (b # avalues)) = 1" by simp
      with len \<open>g0 \<noteq> 1\<close> loop True show ?thesis
        by (simp add: TupleIsPrimitive_def mpz_gcd_def g0_def rest_def Let_def)
    next
      case False
      with loop have "g = gcd g0 (Gcd (set rest))"
        using gcd_loop_no_flag [of g0 rest g] by (simp add: g0_def)
      with G have "Gcd (set (b # avalues)) = gcd g b" by simp
      with len \<open>g0 \<noteq> 1\<close> loop False show ?thesis
        by (simp add: TupleIsPrimitive_def mpz_gcd_def g0_def rest_def Let_def)
    qed
  qed
qed

text \<open>
  C5.  For an a-vector of at least two values, \<^verbatim>\<open>TupleIsPrimitive\<close> prints nothing and
  returns "primitive" exactly when the gcd of all a-values and b is 1.  For a shorter
  a-vector it prints the internal-error line and returns "not primitive".
\<close>

theorem TupleIsPrimitive_correct:
  "(2 \<le> length avalues \<longrightarrow>
      TupleIsPrimitive avalues b = ([], Gcd (set (b # avalues)) = 1)) \<and>
   (length avalues < 2 \<longrightarrow>
      TupleIsPrimitive avalues b =
        ([''Internal Error:  TuplesIsPrimitive().  acount < 2.''], False))"
  by (simp add: TupleIsPrimitive_long) (simp add: TupleIsPrimitive_def)

theorem TupleIsPrimitive_correct_witness:
  "TupleIsPrimitive [3, 4] 5 = ([], True) \<and> TupleIsPrimitive [6, 8] 10 = ([], False) \<and>
   TupleIsPrimitive [7] 7 = ([''Internal Error:  TuplesIsPrimitive().  acount < 2.''], False)"
proof -
  have "gcd (5::int) (gcd 3 4) = 1 \<and> gcd (10::int) (gcd 6 8) \<noteq> 1"
    by code_simp
  then show ?thesis
    using TupleIsPrimitive_correct [of "[3, 4]" 5] TupleIsPrimitive_correct [of "[6, 8]" 10]
      TupleIsPrimitive_correct [of "[7]" 7]
    by simp
qed

subsection \<open>The table of squares\<close>

text \<open>
  C10.  For every accepted \<open>b_max\<close> (at most \<open>2\<^sup>3\<^sup>2 - 2\<close>, so that
  \<open>numsqrs = b_max - 1\<close> is at most \<open>2\<^sup>3\<^sup>2 - 3\<close>) the table has \<open>numsqrs\<close> entries and
  entry \<open>i - 1\<close> is \<open>i\<^sup>2\<close>: the 64-bit product never wraps.
\<close>

theorem sqrs_table_exact:
  "int numsqrs \<le> MAXB - 1 \<Longrightarrow>
   length (sqrs_table numsqrs) = numsqrs \<and>
   (\<forall>i. 1 \<le> i \<and> i \<le> numsqrs \<longrightarrow> unat (sqrs_table numsqrs ! (i - 1)) = i * i)"
proof (intro conjI allI impI)
  show "length (sqrs_table numsqrs) = numsqrs"
    by (simp add: sqrs_table_def)
next
  fix i
  assume bound: "int numsqrs \<le> MAXB - 1" and i: "1 \<le> i \<and> i \<le> numsqrs"
  then have "i < 2 ^ 32" by (simp add: MAXB_def)
  then have "i * i < 2 ^ 32 * 2 ^ 32"
    by (intro mult_strict_mono) simp_all
  then have small: "i * i < 2 ^ 64" by simp
  from i have "1 \<le> i" "i \<le> numsqrs" by simp_all
  then have "[1..<Suc numsqrs] ! (i - 1) = 1 + (i - 1)"
    by (intro nth_upt) simp
  with \<open>1 \<le> i\<close> \<open>i \<le> numsqrs\<close>
  have "sqrs_table numsqrs ! (i - 1) = (word_of_nat i * word_of_nat i :: 64 word)"
    unfolding sqrs_table_def by (simp del: upt_Suc)
  also have "unat \<dots> = i * i"
    using small \<open>i < 2 ^ 32\<close> by (simp add: unat_word_ariths unat_of_nat)
  finally show "unat (sqrs_table numsqrs ! (i - 1)) = i * i" .
qed

theorem sqrs_table_exact_witness:
  "int 4294967293 \<le> MAXB - 1 \<and> length (sqrs_table 4294967293) = 4294967293 \<and>
   unat (sqrs_table 4294967293 ! (4294967293 - 1)) = 4294967293 * 4294967293"
proof -
  have h: "int 4294967293 \<le> MAXB - 1" by (simp add: MAXB_def)
  from sqrs_table_exact [OF h]
  have "length (sqrs_table 4294967293) = 4294967293"
    and "1 \<le> (4294967293::nat) \<and> (4294967293::nat) \<le> 4294967293 \<longrightarrow>
      unat (sqrs_table 4294967293 ! (4294967293 - 1)) = 4294967293 * 4294967293"
    by blast+
  with h show ?thesis by simp
qed

subsection \<open>qsort\<close>

lemma mset_insert_by: "mset (insert_by cmpfunc x ys) = add_mset x (mset ys)"
  by (induction ys) auto

lemma mset_qsort [simp]: "mset (qsort cmpfunc xs) = mset xs"
  unfolding qsort_def by (induction xs) (auto simp: mset_insert_by)

lemma set_qsort [simp]: "set (qsort cmpfunc xs) = set xs"
  by (metis mset_qsort set_mset_mset)

lemma length_qsort [simp]: "length (qsort cmpfunc xs) = length xs"
  by (metis mset_qsort size_mset)

lemma set_insert_by: "set (insert_by cmpfunc x ys) = insert x (set ys)"
  by (metis mset_insert_by set_mset_add_mset_insert set_mset_mset)

text \<open>
  Where the comparison function is total and transitive on the elements, the result is in
  ascending order.
\<close>

lemma sorted_insert_by:
  assumes total: "\<And>u v. u \<in> A \<Longrightarrow> v \<in> A \<Longrightarrow> cmpfunc u v \<le> 0 \<or> cmpfunc v u \<le> 0"
    and trans: "\<And>u v w. u \<in> A \<Longrightarrow> v \<in> A \<Longrightarrow> w \<in> A \<Longrightarrow>
                  cmpfunc u v \<le> 0 \<Longrightarrow> cmpfunc v w \<le> 0 \<Longrightarrow> cmpfunc u w \<le> 0"
    and "x \<in> A" "set ys \<subseteq> A" "sorted_wrt (\<lambda>u v. cmpfunc u v \<le> 0) ys"
  shows "sorted_wrt (\<lambda>u v. cmpfunc u v \<le> 0) (insert_by cmpfunc x ys)"
  using assms(3-)
proof (induction ys)
  case Nil
  then show ?case by simp
next
  case (Cons y ys)
  show ?case
  proof (cases "cmpfunc x y \<le> 0")
    case True
    have "cmpfunc x z \<le> 0" if "z \<in> set ys" for z
    proof -
      from Cons.prems that have "cmpfunc y z \<le> 0" "y \<in> A" "z \<in> A" by auto
      with True \<open>x \<in> A\<close> show ?thesis using trans by blast
    qed
    with True Cons.prems show ?thesis by simp
  next
    case False
    with total [of x y] Cons.prems have "cmpfunc y x \<le> 0" by auto
    moreover from Cons have "sorted_wrt (\<lambda>u v. cmpfunc u v \<le> 0) (insert_by cmpfunc x ys)"
      by simp
    ultimately show ?thesis
      using False Cons.prems by (auto simp: set_insert_by)
  qed
qed

lemma sorted_qsort:
  assumes total: "\<And>u v. u \<in> A \<Longrightarrow> v \<in> A \<Longrightarrow> cmpfunc u v \<le> 0 \<or> cmpfunc v u \<le> 0"
    and trans: "\<And>u v w. u \<in> A \<Longrightarrow> v \<in> A \<Longrightarrow> w \<in> A \<Longrightarrow>
                  cmpfunc u v \<le> 0 \<Longrightarrow> cmpfunc v w \<le> 0 \<Longrightarrow> cmpfunc u w \<le> 0"
    and "set xs \<subseteq> A"
  shows "sorted_wrt (\<lambda>u v. cmpfunc u v \<le> 0) (qsort cmpfunc xs)"
  using assms(3)
proof (induction xs)
  case Nil
  then show ?case by (simp add: qsort_def)
next
  case (Cons x xs)
  then have "sorted_wrt (\<lambda>u v. cmpfunc u v \<le> 0) (qsort cmpfunc xs)" by simp
  moreover have "set (qsort cmpfunc xs) \<subseteq> A" "x \<in> A" using Cons.prems by auto
  ultimately have "sorted_wrt (\<lambda>u v. cmpfunc u v \<le> 0) (insert_by cmpfunc x (qsort cmpfunc xs))"
    using sorted_insert_by [of A cmpfunc x "qsort cmpfunc xs"] total trans by blast
  then show ?case by (simp add: qsort_def)
qed

text \<open>
  The result does not depend on the sorting algorithm where elements that compare equal are
  equal: a list in ascending order is determined by its elements.
\<close>

lemma sorted_wrt_unique:
  assumes antisym: "\<And>u v. u \<in> A \<Longrightarrow> v \<in> A \<Longrightarrow> le u v \<Longrightarrow> le v u \<Longrightarrow> u = v"
    and "sorted_wrt le xs" "sorted_wrt le ys" "mset xs = mset ys" "set xs \<subseteq> A"
  shows "xs = ys"
  using assms(2-)
proof (induction xs arbitrary: ys)
  case Nil
  then show ?case by simp
next
  case (Cons x xs)
  then obtain y ys' where ys: "ys = y # ys'" by (cases ys) auto
  have sets: "set (x # xs) = set (y # ys')"
    using Cons.prems(3) ys by (metis set_mset_mset)
  have "x = y"
  proof (rule ccontr)
    assume neq: "x \<noteq> y"
    with sets have "x \<in> set ys'" "y \<in> set xs" by auto
    with Cons.prems(1,2) ys have "le y x" "le x y" by auto
    moreover from sets Cons.prems(4) have "x \<in> A" "y \<in> A" by auto
    ultimately show False using antisym neq by blast
  qed
  moreover from this Cons.prems ys have "xs = ys'"
    by (intro Cons.IH) auto
  ultimately show ?case by (simp add: ys)
qed

lemma insert_by_avalues: "insert_by tentry_avalues_cmpfunc x ys = insort x ys"
  by (induction ys) (auto simp: tentry_avalues_cmpfunc_def)

lemma qsort_avalues: "qsort tentry_avalues_cmpfunc xs = sort xs"
  unfolding qsort_def by (induction xs) (auto simp: insert_by_avalues)

lemma qsort_avalues_sorted: "sorted (qsort tentry_avalues_cmpfunc xs)"
  by (simp add: qsort_avalues)

lemma qsort_avalues_id: "sorted xs \<Longrightarrow> qsort tentry_avalues_cmpfunc xs = xs"
  by (simp add: qsort_avalues sorted_sort_id)

lemma sum_sqr_mset: "mset xs = mset ys \<Longrightarrow> sum_sqr xs = sum_sqr ys"
proof -
  assume eq: "mset xs = mset ys"
  have "sum_sqr zs = sum_mset (image_mset (\<lambda>x. x * x) (mset zs))" for zs
    unfolding sum_sqr_def by (induction zs) auto
  with eq show ?thesis by simp
qed

lemma sum_sqr_qsort [simp]: "sum_sqr (qsort cmpfunc xs) = sum_sqr xs"
  by (rule sum_sqr_mset) simp

subsection \<open>The comparison functions\<close>

lemma avalues_cmp_le_iff:
  "length xs = length ys \<Longrightarrow> avalues_cmp xs ys \<le> 0 \<longleftrightarrow> lex_le xs ys"
  by (induction xs ys rule: list_induct2) (auto simp: Let_def)

lemma avalues_cmp_eq_iff:
  "length xs = length ys \<Longrightarrow> avalues_cmp xs ys = 0 \<longleftrightarrow> xs = ys"
  by (induction xs ys rule: list_induct2) (auto simp: Let_def)

lemma ttable_tentry_cmpfunc_le_iff:
  "length (tentry_a e1) = length (tentry_a e2) \<Longrightarrow>
   ttable_tentry_cmpfunc e1 e2 \<le> 0 \<longleftrightarrow> canonical_le e1 e2"
  by (auto simp: ttable_tentry_cmpfunc_def canonical_le_def Let_def avalues_cmp_le_iff)

lemma lex_le_total: "length xs = length ys \<Longrightarrow> lex_le xs ys \<or> lex_le ys xs"
  by (induction xs ys rule: list_induct2) auto

lemma lex_le_trans:
  "length xs = length ys \<Longrightarrow> length ys = length zs \<Longrightarrow>
   lex_le xs ys \<Longrightarrow> lex_le ys zs \<Longrightarrow> lex_le xs zs"
  by (induction xs ys zs rule: list_induct3) auto

lemma lex_le_antisym: "length xs = length ys \<Longrightarrow> lex_le xs ys \<Longrightarrow> lex_le ys xs \<Longrightarrow> xs = ys"
  by (induction xs ys rule: list_induct2) auto

lemma canonical_le_total:
  "length (tentry_a e1) = length (tentry_a e2) \<Longrightarrow> canonical_le e1 e2 \<or> canonical_le e2 e1"
  using lex_le_total [of "tentry_a e1" "tentry_a e2"] by (auto simp: canonical_le_def)

lemma canonical_le_trans:
  "length (tentry_a e1) = length (tentry_a e2) \<Longrightarrow> length (tentry_a e2) = length (tentry_a e3) \<Longrightarrow>
   canonical_le e1 e2 \<Longrightarrow> canonical_le e2 e3 \<Longrightarrow> canonical_le e1 e3"
  using lex_le_trans [of "tentry_a e1" "tentry_a e2" "tentry_a e3"]
  by (auto simp: canonical_le_def)

lemma canonical_le_antisym:
  fixes e1 e2 :: tentry
  shows "length (tentry_a e1) = length (tentry_a e2) \<Longrightarrow>
   canonical_le e1 e2 \<Longrightarrow> canonical_le e2 e1 \<Longrightarrow> e1 = e2"
  using lex_le_antisym [of "tentry_a e1" "tentry_a e2"]
  by (auto simp: canonical_le_def)

lemma uniform_iff: "uniform n tbl \<longleftrightarrow> (\<forall>e \<in> set tbl. length (tentry_a e) = n)"
  by (simp add: uniform_def list_all_iff)

lemma uniform_qsort [simp]: "uniform n (qsort cmpfunc tbl) = uniform n tbl"
  by (simp add: uniform_iff)

text \<open>The canonical sort of a table whose entries have the same number of a-values.\<close>

lemma sorted_canonical_qsort:
  assumes "uniform n tbl"
  shows "sorted_wrt canonical_le (qsort ttable_tentry_cmpfunc tbl)"
proof -
  let ?A = "{e :: tentry. length (tentry_a e) = n}"
  have "sorted_wrt (\<lambda>u v. ttable_tentry_cmpfunc u v \<le> 0) (qsort ttable_tentry_cmpfunc tbl)"
  proof (rule sorted_qsort [where A = ?A])
    fix u v assume "u \<in> ?A" "v \<in> ?A"
    then show "ttable_tentry_cmpfunc u v \<le> 0 \<or> ttable_tentry_cmpfunc v u \<le> 0"
      using canonical_le_total [of u v] by (simp add: ttable_tentry_cmpfunc_le_iff)
  next
    fix u v w assume "u \<in> ?A" "v \<in> ?A" "w \<in> ?A"
      and "ttable_tentry_cmpfunc u v \<le> 0" "ttable_tentry_cmpfunc v w \<le> 0"
    then show "ttable_tentry_cmpfunc u w \<le> 0"
      using canonical_le_trans [of u v w] by (simp add: ttable_tentry_cmpfunc_le_iff)
  next
    show "set tbl \<subseteq> ?A" using assms by (auto simp: uniform_iff)
  qed
  moreover have "\<forall>u \<in> set (qsort ttable_tentry_cmpfunc tbl). \<forall>v \<in> set (qsort ttable_tentry_cmpfunc tbl).
      (ttable_tentry_cmpfunc u v \<le> 0) = canonical_le u v"
    using assms by (auto simp: uniform_iff ttable_tentry_cmpfunc_le_iff)
  ultimately show ?thesis
    by (auto elim!: sorted_wrt_mono_rel [rotated])
qed

subsection \<open>Deduplication in ptuples\<close>

lemma check_dup_same_length:
  "length xs = length ys \<Longrightarrow> check_dup xs ys (length xs) = Inr (xs = ys)"
proof (induction xs arbitrary: ys)
  case Nil
  then show ?case by simp
next
  case (Cons x xs)
  then obtain y ys' where "ys = y # ys'" "length xs = length ys'"
    by (cases ys) auto
  with Cons.IH [of ys'] show ?case by simp
qed

lemma CheckForDuplicateTuple_same_length:
  "length xs = length ys \<Longrightarrow> CheckForDuplicateTuple xs ys (int (length xs)) = Inr (xs = ys)"
  unfolding CheckForDuplicateTuple_def nat_int by (rule check_dup_same_length)

text \<open>
  \<^verbatim>\<open>NumDupsAhead\<close> counts the entries after position \<open>i\<close> that continue the run of
  entry \<open>i\<close>.
\<close>

lemma NumDupsAhead_loop_run:
  assumes "uniform n (drop i the_table)" "i < length the_table"
  shows "NumDupsAhead_loop the_table i DupCount =
         Inr (DupCount + length (takeWhile (\<lambda>e'. tentry_a e' = tentry_a (the_table ! i))
                                    (drop (Suc i) the_table)))"
  using assms
proof (induction the_table i DupCount rule: NumDupsAhead_loop.induct)
  case (1 the_table i DupCount)
  show ?case
  proof (cases "Suc i < length the_table")
    case False
    with 1 show ?thesis
      by (simp add: NumDupsAhead_loop.simps [of the_table i])
  next
    case True
    let ?e = "the_table ! i" and ?f = "the_table ! Suc i"
    have split: "drop (Suc i) the_table = ?f # drop (Suc (Suc i)) the_table"
      using True by (simp add: Cons_nth_drop_Suc)
    have mem: "?e \<in> set (drop i the_table)" "?f \<in> set (drop i the_table)"
      using True by (auto simp: in_set_conv_nth intro: exI [of _ 0] exI [of _ 1])
    with "1.prems" have len: "length (tentry_a ?e) = length (tentry_a ?f)"
      by (simp add: uniform_iff)
    have chk: "CheckForDuplicateTuple (tentry_a ?e) (tentry_a ?f) (int (length (tentry_a ?e)))
               = Inr (tentry_a ?e = tentry_a ?f)"
      by (rule CheckForDuplicateTuple_same_length [OF len])
    show ?thesis
    proof (cases "tentry_a ?e = tentry_a ?f")
      case False
      with True chk show ?thesis
        by (simp add: NumDupsAhead_loop.simps [of the_table i] split)
    next
      case same: True
      have "uniform n (drop (i + 1) the_table)"
        using "1.prems"(1) set_drop_subset_set_drop [of i "i + 1" the_table]
        by (auto simp: uniform_iff)
      moreover note ih = "1.IH"
      ultimately have "NumDupsAhead_loop the_table (i + 1) (DupCount + 1) =
            Inr (DupCount + 1 + length (takeWhile (\<lambda>e'. tentry_a e' = tentry_a ?f)
                                          (drop (Suc (i + 1)) the_table)))"
        using ih True chk same by simp
      with True chk same show ?thesis
        by (simp add: NumDupsAhead_loop.simps [of the_table i] split)
    qed
  qed
qed

lemma MovePTuple_sorted:
  fixes e :: tentry
  shows "sorted (tentry_a e) \<Longrightarrow> MovePTuple tbl (tentry_a e) (tentry_b e) = tbl @ [e]"
  by (simp add: MovePTuple_def qsort_avalues_id)

lemma RemDupTuples_loop_collapse:
  assumes "uniform n (drop i the_table)" "\<forall>e \<in> set (drop i the_table). sorted (tentry_a e)"
    "i \<le> length the_table"
  shows "RemDupTuples_loop the_table new_table i = Inr (new_table @ collapse_runs (drop i the_table))"
  using assms
proof (induction the_table new_table i rule: RemDupTuples_loop.induct)
  case (1 the_table new_table i)
  show ?case
  proof (cases "i < length the_table")
    case False
    then have "RemDupTuples_loop the_table new_table i = Inr new_table"
      by (simp add: RemDupTuples_loop.simps [of the_table new_table i])
    moreover from False have "drop i the_table = []" by simp
    ultimately show ?thesis by simp
  next
    case True
    let ?e = "the_table ! i"
    let ?P = "\<lambda>e'. tentry_a e' = tentry_a ?e"
    let ?rest = "drop (Suc i) the_table"
    define skip where "skip = length (takeWhile ?P ?rest)"
    have num: "NumDupsAhead the_table i = Inr skip"
      unfolding NumDupsAhead_def skip_def
      using NumDupsAhead_loop_run [OF "1.prems"(1) True, of 0] by simp
    have split: "drop i the_table = ?e # ?rest"
      using True by (simp add: Cons_nth_drop_Suc)
    have "sorted (tentry_a ?e)"
      using "1.prems"(2) split by simp
    then have move: "MovePTuple new_table (tentry_a ?e) (tentry_b ?e) = new_table @ [?e]"
      by (rule MovePTuple_sorted)
    have skip_le: "skip \<le> length ?rest"
      unfolding skip_def by (rule length_takeWhile_le)
    have later: "drop (i + skip + 1) (the_table[i := moved_out ?e]) = dropWhile ?P ?rest"
    proof -
      have "drop (i + skip + 1) (the_table[i := moved_out ?e]) = drop (i + skip + 1) the_table"
        by (simp add: drop_update_cancel)
      also have "\<dots> = drop skip ?rest"
        by (simp add: add.commute)
      also have "\<dots> = dropWhile ?P ?rest"
        unfolding skip_def by (simp add: dropWhile_eq_drop)
      finally show ?thesis .
    qed
    then have later': "drop (Suc (i + skip)) the_table = dropWhile ?P ?rest"
      by (simp add: drop_update_cancel)
    have sub: "set (dropWhile ?P ?rest) \<subseteq> set (drop i the_table)"
      using set_dropWhileD split by fastforce
    have "RemDupTuples_loop (the_table[i := moved_out ?e])
            (MovePTuple new_table (tentry_a ?e) (tentry_b ?e)) (i + skip + 1) =
          Inr (MovePTuple new_table (tentry_a ?e) (tentry_b ?e) @
               collapse_runs (drop (i + skip + 1) (the_table[i := moved_out ?e])))"
    proof (rule "1.IH" [OF True num])
      show "uniform n (drop (i + skip + 1) (the_table[i := moved_out ?e]))"
        using "1.prems"(1) sub unfolding later by (auto simp: uniform_iff)
      show "\<forall>e \<in> set (drop (i + skip + 1) (the_table[i := moved_out ?e])). sorted (tentry_a e)"
        using "1.prems"(2) sub unfolding later by auto
      show "i + skip + 1 \<le> length (the_table[i := moved_out ?e])"
        using skip_le True by simp
    qed
    then show ?thesis
      using True num
      by (simp add: RemDupTuples_loop.simps [of the_table new_table i] move later later' split)
  qed
qed

text \<open>
  On a table whose entries have the same number of a-values, each in ascending order (as
  \<^verbatim>\<open>MovePTuple\<close> leaves them), \<^verbatim>\<open>RemDupTuples\<close> of ptuples returns the first entry of every
  run of the sorted table.
\<close>

lemma RemDupTuples_collapse:
  assumes "uniform n the_table" "\<forall>e \<in> set the_table. sorted (tentry_a e)"
  shows "RemDupTuples the_table = Inr (collapse_runs (qsort ttable_tentry_cmpfunc the_table))"
proof (cases "length the_table \<le> 1")
  case True
  then have "the_table = [] \<or> (\<exists>e. the_table = [e])"
    by (cases the_table) auto
  then show ?thesis
    by (auto simp: RemDupTuples_def qsort_def)
next
  case False
  have "RemDupTuples_loop (qsort ttable_tentry_cmpfunc the_table) [] 0 =
        Inr ([] @ collapse_runs (drop 0 (qsort ttable_tentry_cmpfunc the_table)))"
    by (rule RemDupTuples_loop_collapse [where n = n]) (use assms in simp_all)
  with False show ?thesis
    by (simp add: RemDupTuples_def)
qed

subsection \<open>What collapsing the runs of a sorted table achieves\<close>

lemma set_collapse_runs_subset: "set (collapse_runs tbl) \<subseteq> set tbl"
proof (induction tbl rule: collapse_runs.induct)
  case 1
  then show ?case by simp
next
  case (2 e es)
  then show ?case
    using set_dropWhileD by fastforce
qed

lemma collapse_runs_keeps_avalues:
  "e \<in> set tbl \<Longrightarrow> \<exists>e' \<in> set (collapse_runs tbl). tentry_a e' = tentry_a e"
proof (induction tbl rule: collapse_runs.induct)
  case 1
  then show ?case by simp
next
  case (2 f fs)
  show ?case
  proof (cases "tentry_a e = tentry_a f")
    case True
    then show ?thesis by auto
  next
    case False
    with "2.prems" have "e \<in> set fs" by auto
    with False have "e \<in> set (dropWhile (\<lambda>e'. tentry_a e' = tentry_a f) fs)"
      by (induction fs) auto
    with "2.IH" show ?thesis by auto
  qed
qed

lemma sorted_wrt_dropWhile': "sorted_wrt R xs \<Longrightarrow> sorted_wrt R (dropWhile P xs)"
  by (induction xs) auto

lemma sorted_wrt_collapse_runs: "sorted_wrt R tbl \<Longrightarrow> sorted_wrt R (collapse_runs tbl)"
proof (induction tbl rule: collapse_runs.induct)
  case 1
  then show ?case by simp
next
  case (2 e es)
  let ?rest = "dropWhile (\<lambda>e'. tentry_a e' = tentry_a e) es"
  from "2.prems" have "sorted_wrt R ?rest"
    by (simp add: sorted_wrt_dropWhile')
  with "2.IH" have "sorted_wrt R (collapse_runs ?rest)" .
  moreover have "set (collapse_runs ?rest) \<subseteq> set es"
    using set_collapse_runs_subset [of ?rest] set_dropWhileD by fastforce
  ultimately show ?case
    using "2.prems" by auto
qed

text \<open>
  In a canonically sorted table in which the a-vector determines \<open>b\<close>, entries with the
  same a-vector are adjacent, so no a-vector survives twice.
\<close>

lemma distinct_collapse_runs:
  assumes "sorted_wrt canonical_le tbl" "uniform n tbl"
    "\<forall>e \<in> set tbl. \<forall>e' \<in> set tbl. tentry_a e = tentry_a e' \<longrightarrow> tentry_b e = tentry_b e'"
  shows "distinct (map tentry_a (collapse_runs tbl))"
  using assms
proof (induction tbl rule: collapse_runs.induct)
  case 1
  then show ?case by simp
next
  case (2 e es)
  let ?P = "\<lambda>e'. tentry_a e' = tentry_a e"
  let ?rest = "dropWhile ?P es"
  have sub: "set ?rest \<subseteq> set es"
    using set_dropWhileD by fastforce
  have "distinct (map tentry_a (collapse_runs ?rest))"
  proof (rule "2.IH")
    show "sorted_wrt canonical_le ?rest"
      using "2.prems"(1) by (simp add: sorted_wrt_dropWhile')
    show "uniform n ?rest"
      using "2.prems"(2) sub by (auto simp: uniform_iff)
    show "\<forall>e \<in> set ?rest. \<forall>e' \<in> set ?rest. tentry_a e = tentry_a e' \<longrightarrow> tentry_b e = tentry_b e'"
      using "2.prems"(3) sub by auto
  qed
  moreover have "tentry_a e \<noteq> tentry_a f" if f: "f \<in> set (collapse_runs ?rest)" for f
  proof
    assume same: "tentry_a e = tentry_a f"
    from f have f_rest: "f \<in> set ?rest"
      using set_collapse_runs_subset by blast
    then obtain g gs where rest: "?rest = g # gs"
      by (cases ?rest) (simp_all del: dropWhile_eq_Nil_conv)
    have g: "\<not> ?P g" "g \<in> set es"
    proof -
      from rest have "?rest \<noteq> []" "hd ?rest = g" by simp_all
      then show "\<not> ?P g" using hd_dropWhile [of ?P es] by metis
      from rest sub show "g \<in> set es" by auto
    qed
    have f_es: "f \<in> set es" using f_rest sub by auto
    then have "e \<in> set (e # es)" "f \<in> set (e # es)" by simp_all
    with "2.prems"(3) same have "tentry_b e = tentry_b f" by blast
    with same have ef: "e = f" by (intro tentry.equality) simp_all
    have eg: "canonical_le e g" using "2.prems"(1) g(2) by simp
    have gf: "canonical_le g f"
    proof (cases "f = g")
      case True
      with g(1) same show ?thesis by simp
    next
      case False
      with f_rest rest have "f \<in> set gs" by simp
      moreover have "sorted_wrt canonical_le (g # gs)"
        using "2.prems"(1) rest sorted_wrt_dropWhile' [of canonical_le es ?P] by simp
      ultimately show ?thesis by simp
    qed
    have "length (tentry_a e) = length (tentry_a g)"
      using "2.prems"(2) g(2) by (simp add: uniform_iff)
    with eg gf ef have "e = g"
      by (intro canonical_le_antisym) simp_all
    with g(1) show False by simp
  qed
  ultimately show ?case by auto
qed

lemma RemDupTuples_data_model:
  assumes "uniform n the_table"
    and "\<forall>e \<in> set the_table. sorted (tentry_a e) \<and> 0 \<le> tentry_b e \<and>
           sum_sqr (tentry_a e) = tentry_b e * tentry_b e"
  shows "\<exists>new_table. RemDupTuples the_table = Inr new_table \<and>
           new_table = collapse_runs (qsort ttable_tentry_cmpfunc the_table) \<and>
           distinct (map tentry_a new_table) \<and>
           sorted_wrt canonical_le new_table \<and>
           set new_table = set the_table"
proof -
  let ?S = "qsort ttable_tentry_cmpfunc the_table"
  let ?R = "collapse_runs ?S"
  have run: "RemDupTuples the_table = Inr ?R"
    using assms by (intro RemDupTuples_collapse [where n = n]) auto
  have sorted_S: "sorted_wrt canonical_le ?S"
    using assms(1) by (rule sorted_canonical_qsort)
  have b_det: "tentry_b e = tentry_b e'"
    if "e \<in> set the_table" "e' \<in> set the_table" "tentry_a e = tentry_a e'" for e e'
  proof -
    from that(1) assms(2) have e: "0 \<le> tentry_b e"
      "sum_sqr (tentry_a e) = tentry_b e * tentry_b e" by blast+
    from that(2) assms(2) have e': "0 \<le> tentry_b e'"
      "sum_sqr (tentry_a e') = tentry_b e' * tentry_b e'" by blast+
    from e(2) e'(2) that(3) have "(tentry_b e)\<^sup>2 = (tentry_b e')\<^sup>2"
      by (simp add: power2_eq_square)
    with \<open>0 \<le> tentry_b e\<close> \<open>0 \<le> tentry_b e'\<close> show ?thesis
      by (simp add: power2_eq_iff_nonneg)
  qed
  have dist: "distinct (map tentry_a ?R)"
  proof (rule distinct_collapse_runs [where n = n])
    show "sorted_wrt canonical_le ?S" by (rule sorted_S)
    show "uniform n ?S" using assms(1) by simp
    show "\<forall>e \<in> set ?S. \<forall>e' \<in> set ?S. tentry_a e = tentry_a e' \<longrightarrow> tentry_b e = tentry_b e'"
      by (intro ballI impI b_det) simp_all
  qed
  have "set ?R = set the_table"
  proof
    show "set ?R \<subseteq> set the_table"
      using set_collapse_runs_subset [of ?S] by simp
    show "set the_table \<subseteq> set ?R"
    proof
      fix e assume e: "e \<in> set the_table"
      then have "e \<in> set ?S" by simp
      then obtain e' where e': "e' \<in> set ?R" "tentry_a e' = tentry_a e"
        using collapse_runs_keeps_avalues by blast
      then have "e' \<in> set the_table"
        using set_collapse_runs_subset [of ?S] by auto
      with e e'(2) have "tentry_b e' = tentry_b e" by (intro b_det)
      with e'(2) have "e' = e" by (intro tentry.equality) simp_all
      with e'(1) show "e \<in> set ?R" by simp
    qed
  qed
  with run dist sorted_S show ?thesis
    by (simp add: sorted_wrt_collapse_runs)
qed

text \<open>
  The deduplication of ptuples, on every table of the data model (entries with the same
  number of a-values, each a-vector ascending, \<open>b\<close> the non-negative root of the sum of the
  squares): the result is the canonically sorted table with every run of equal a-vectors
  collapsed to its first entry; no two entries of it have the same a-vector, it is in
  canonical order, and it has exactly the entries of the table.
\<close>

theorem RemDupTuples_ptuples_correct:
  assumes "uniform n the_table"
    and "\<forall>e \<in> set the_table. sorted (tentry_a e) \<and> 0 \<le> tentry_b e \<and>
           sum_sqr (tentry_a e) = tentry_b e * tentry_b e"
  shows "\<exists>new_table. RemDupTuples the_table = Inr new_table \<and>
           new_table = collapse_runs (qsort ttable_tentry_cmpfunc the_table) \<and>
           distinct (map tentry_a new_table) \<and>
           sorted_wrt canonical_le new_table \<and>
           set new_table = set the_table"
  using assms by (rule RemDupTuples_data_model)

theorem RemDupTuples_ptuples_correct_witness:
  "RemDupTuples [\<lparr>tentry_a = [6, 8], tentry_b = 10\<rparr>, \<lparr>tentry_a = [3, 4], tentry_b = 5\<rparr>,
                 \<lparr>tentry_a = [6, 8], tentry_b = 10\<rparr>] =
     Inr [\<lparr>tentry_a = [3, 4], tentry_b = 5\<rparr>, \<lparr>tentry_a = [6, 8], tentry_b = 10\<rparr>]"
proof -
  let ?T = "[\<lparr>tentry_a = [6, 8], tentry_b = 10\<rparr>, \<lparr>tentry_a = [3, 4], tentry_b = 5\<rparr>,
             \<lparr>tentry_a = [6, 8], tentry_b = 10\<rparr>]"
  have "uniform 2 ?T"
    by (simp add: uniform_def)
  moreover have "\<forall>e \<in> set ?T. sorted (tentry_a e) \<and> 0 \<le> tentry_b e \<and>
      sum_sqr (tentry_a e) = tentry_b e * tentry_b e"
    by (simp add: sum_sqr_def)
  ultimately have "\<exists>new_table. RemDupTuples ?T = Inr new_table \<and>
      new_table = collapse_runs (qsort ttable_tentry_cmpfunc ?T) \<and>
      distinct (map tentry_a new_table) \<and> sorted_wrt canonical_le new_table \<and>
      set new_table = set ?T"
    by (rule RemDupTuples_ptuples_correct)
  moreover have "collapse_runs (qsort ttable_tentry_cmpfunc ?T) =
      [\<lparr>tentry_a = [3, 4], tentry_b = 5\<rparr>, \<lparr>tentry_a = [6, 8], tentry_b = 10\<rparr>]"
    by code_simp
  ultimately show ?thesis by simp
qed

text \<open>
  C4.  The deduplication of qkptuples compares entry \<open>i\<close> with the slot of entry
  \<open>i - 1\<close>, which it has emptied when it moved that entry out; the comparison of zero
  values answers "duplicate", so the entry after every surviving entry is dropped.  Here the
  second of two entries with different a-vectors is lost.
\<close>

theorem qk_RemDupTuples_drops_distinct_entry:
  "qk_RemDupTuples [\<lparr>tentry_a = [3, 4, 12], tentry_b = 13\<rparr>, \<lparr>tentry_a = [8, 9, 12], tentry_b = 17\<rparr>] =
     Inr [\<lparr>tentry_a = [3, 4, 12], tentry_b = 13\<rparr>]"
  by code_simp

subsection \<open>Search by b-value\<close>

lemma bsearch_loop_found:
  "bsearch_loop compar key base l u = Some idx \<Longrightarrow>
   l \<le> idx \<and> idx < u \<and> compar key (base ! idx) = 0"
proof (induction compar key base l u rule: bsearch_loop.induct)
  case (1 compar key base l u)
  show ?case
  proof (cases "l < u")
    case False
    with "1.prems" show ?thesis
      by (simp add: bsearch_loop.simps [of compar key base l u])
  next
    case True
    let ?idx = "(l + u) div 2"
    consider "compar key (base ! ?idx) < 0" | "compar key (base ! ?idx) > 0"
      | "compar key (base ! ?idx) = 0" by linarith
    then show ?thesis
    proof cases
      case 1
      with True "1.prems" have "bsearch_loop compar key base l ?idx = Some idx"
        by (simp add: bsearch_loop.simps [of compar key base l u] Let_def)
      with "1.IH"(1) [OF True refl refl 1] True show ?thesis by auto
    next
      case 2
      with True "1.prems" have "bsearch_loop compar key base (?idx + 1) u = Some idx"
        by (simp add: bsearch_loop.simps [of compar key base l u] Let_def)
      with "1.IH"(2) [OF True refl refl _ 2] 2 True show ?thesis by auto
    next
      case 3
      with True "1.prems" have "idx = ?idx"
        by (simp add: bsearch_loop.simps [of compar key base l u] Let_def)
      with 3 True show ?thesis by auto
    qed
  qed
qed

lemma scan_back_bounds:
  "0 \<le> index \<Longrightarrow> tentry_b (the_table ! nat index) = B \<Longrightarrow>
   0 \<le> scan_back the_table B index \<and> scan_back the_table B index \<le> index \<and>
   tentry_b (the_table ! nat (scan_back the_table B index)) = B"
proof (induction the_table B index rule: scan_back.induct)
  case (1 the_table B index)
  show ?case
  proof (cases "index > 1 \<and> mpz_cmp (tentry_b (the_table ! nat (index - 1))) B = 0")
    case True
    then have step: "scan_back the_table B index = scan_back the_table B (index - 1)"
      by (subst scan_back.simps) simp
    from True have "0 \<le> index - 1" "tentry_b (the_table ! nat (index - 1)) = B"
      by simp_all
    with "1.IH" [OF True] show ?thesis
      unfolding step by simp
  next
    case False
    then have "scan_back the_table B index = index"
      by (subst scan_back.simps) auto
    with "1.prems" show ?thesis by simp
  qed
qed

text \<open>
  Whatever index \<^verbatim>\<open>GetFirstBIndex\<close> returns, when it is not \<open>-1\<close> it is the index of an entry
  whose b-value is \<open>B\<close>.
\<close>

lemma GetFirstBIndex_found:
  assumes "0 \<le> GetFirstBIndex the_table B"
  shows "nat (GetFirstBIndex the_table B) < length the_table \<and>
         tentry_b (the_table ! nat (GetFirstBIndex the_table B)) = B"
proof (cases "bsearch ttable_tentry_Bonly_cmpfunc \<lparr>tentry_a = [], tentry_b = B\<rparr> the_table")
  case None
  with assms show ?thesis by (simp add: GetFirstBIndex_def)
next
  case (Some found_entry)
  then have found: "found_entry < length the_table" "tentry_b (the_table ! found_entry) = B"
    using bsearch_loop_found [of ttable_tentry_Bonly_cmpfunc "\<lparr>tentry_a = [], tentry_b = B\<rparr>"
        the_table 0 "length the_table" found_entry]
    by (simp_all add: bsearch_def ttable_tentry_Bonly_cmpfunc_def)
  have res: "GetFirstBIndex the_table B = scan_back the_table B (int found_entry)"
    using Some by (simp add: GetFirstBIndex_def)
  from scan_back_bounds [of "int found_entry" the_table B] found
  show ?thesis unfolding res by auto
qed

subsection \<open>Checked reads and the table of squares\<close>

lemma rd_Inr_iff: "rd xs i = Inr x \<longleftrightarrow> 0 \<le> i \<and> i < int (length xs) \<and> x = xs ! nat i"
  by (auto simp: rd_def)

lemma rd_in_range: "0 \<le> i \<Longrightarrow> i < int (length xs) \<Longrightarrow> rd xs i = Inr (xs ! nat i)"
  by (simp add: rd_def)

lemma length_sqrs_table [simp]: "length (sqrs_table numsqrs) = numsqrs"
  by (simp add: sqrs_table_def)

lemma sqrs_table_nth:
  assumes "i < numsqrs" "int numsqrs \<le> MAXB - 1"
  shows "uint (sqrs_table numsqrs ! i) = (int i + 1) * (int i + 1)"
proof -
  have "[1..<Suc numsqrs] ! i = 1 + i"
    using assms(1) by (intro nth_upt) simp
  then have entry: "sqrs_table numsqrs ! i = (word_of_nat (Suc i) * word_of_nat (Suc i) :: 64 word)"
    using assms(1) unfolding sqrs_table_def by (simp del: upt_Suc)
  from assms have "Suc i < 2 ^ 32" by (simp add: MAXB_def)
  then have "Suc i * Suc i < 2 ^ 32 * 2 ^ 32"
    by (intro mult_strict_mono) simp_all
  then have small: "Suc i * Suc i < 2 ^ 64" by simp
  have "unat (word_of_nat (Suc i) * word_of_nat (Suc i) :: 64 word) = Suc i * Suc i"
    using small \<open>Suc i < 2 ^ 32\<close> by (simp add: unat_word_ariths unat_of_nat)
  then have "uint (sqrs_table numsqrs ! i) = int (Suc i * Suc i)"
    unfolding entry by (metis uint_nat)
  then show ?thesis by (simp add: algebra_simps)
qed

text \<open>A successful read of the table of squares.\<close>

lemma rd_sqrs_table:
  assumes "rd (sqrs_table (nat numsqrs)) d = Inr sq" "numsqrs \<le> MAXB - 1"
  shows "0 \<le> d \<and> d < numsqrs \<and> uint sq = (d + 1) * (d + 1)"
proof -
  from assms(1) have d: "0 \<le> d" "d < int (nat numsqrs)" "sq = sqrs_table (nat numsqrs) ! nat d"
    by (simp_all add: rd_Inr_iff)
  then have "nat d < nat numsqrs" "int (nat numsqrs) \<le> MAXB - 1"
    using assms(2) by (auto split: if_splits)
  then have "uint (sqrs_table (nat numsqrs) ! nat d) = (int (nat d) + 1) * (int (nat d) + 1)"
    by (rule sqrs_table_nth)
  with d show ?thesis by (auto split: if_splits)
qed

lemma prefix_sum_Suc:
  "j < length sqrindexes \<Longrightarrow>
   prefix_sum sqrindexes (Suc j) = prefix_sum sqrindexes j + (sqrindexes ! j + 1) * (sqrindexes ! j + 1)"
  by (simp add: prefix_sum_def avalues_of_def sum_sqr_def take_Suc_conv_app_nth)

lemma prefix_sum_0 [simp]: "prefix_sum sqrindexes 0 = 0"
  by (simp add: prefix_sum_def avalues_of_def sum_sqr_def)

lemma prefix_sum_update:
  "m \<le> i \<Longrightarrow> prefix_sum (sqrindexes[i := d]) m = prefix_sum sqrindexes m"
  by (simp add: prefix_sum_def)

lemma prefix_sum_all:
  "length sqrindexes \<le> m \<Longrightarrow> prefix_sum sqrindexes m = sum_sqr (avalues_of sqrindexes)"
  by (simp add: prefix_sum_def)

subsection \<open>The steps of the exhaustive engine\<close>

lemma prefix_ok_extend:
  assumes ok: "prefix_ok numsqrs ds sub i"
    and i: "0 \<le> i" "nat i < length ds" "length sub = length ds"
    and d: "0 \<le> ds ! nat i" "ds ! nat i < numsqrs"
    and v: "v = (if i > 0 then sub ! nat (i - 1) else 0) + (ds ! nat i + 1) * (ds ! nat i + 1)"
  shows "prefix_ok numsqrs ds (sub[nat i := v]) (i + 1)"
  unfolding prefix_ok_def
proof (intro allI impI)
  fix j assume "int j < i + 1"
  then consider "int j < i" | "j = nat i" using i(1) by linarith
  then show "0 \<le> ds ! j \<and> ds ! j < numsqrs \<and> sub[nat i := v] ! j = prefix_sum ds (Suc j)"
  proof cases
    case 1
    then have "j \<noteq> nat i" by linarith
    with 1 ok show ?thesis by (simp add: prefix_ok_def)
  next
    case 2
    have "v = prefix_sum ds (Suc (nat i))"
    proof (cases "i > 0")
      case True
      then have "int (nat (i - 1)) < i" by simp
      with ok have "sub ! nat (i - 1) = prefix_sum ds (Suc (nat (i - 1)))"
        unfolding prefix_ok_def by blast
      moreover from True have "Suc (nat (i - 1)) = nat i" by simp
      ultimately show ?thesis
        using True v i(2) by (simp add: prefix_sum_Suc)
    next
      case False
      with i(1) have "i = 0" by simp
      with v i(2) show ?thesis by (simp add: prefix_sum_Suc)
    qed
    with 2 d i show ?thesis by simp
  qed
qed

lemma prefix_ok_mono: "prefix_ok numsqrs ds sub i \<Longrightarrow> i' \<le> i \<Longrightarrow> prefix_ok numsqrs ds sub i'"
  by (auto simp: prefix_ok_def)

text \<open>The \<^verbatim>\<open>for\<close> loop that fills the subtotals up to the last tumbler.\<close>

lemma fill_subtotals_facts:
  assumes "fill_subtotals sqrs lasttumbler st = Inr st'"
    and "sqrs = sqrs_table (nat numsqrs)" "numsqrs \<le> MAXB - 1"
    and "length (sqrindextumbler st) = n" "length (subtotaltumbler st) = n"
    and "prefix_ok numsqrs (sqrindextumbler st) (subtotaltumbler st) (tumbler_i st)"
  shows "sqrindextumbler st' = sqrindextumbler st \<and> tmp_table st' = tmp_table st \<and>
         length (subtotaltumbler st') = n \<and>
         tumbler_i st' = max (tumbler_i st) lasttumbler \<and>
         prefix_ok numsqrs (sqrindextumbler st') (subtotaltumbler st') (tumbler_i st')"
  using assms
proof (induction sqrs lasttumbler st rule: fill_subtotals.induct)
  case (1 sqrs lasttumbler st)
  let ?i = "tumbler_i st"
  show ?case
  proof (cases "?i < lasttumbler")
    case False
    with "1.prems"(1) have "st' = st"
      by (simp add: fill_subtotals.simps [of sqrs lasttumbler st])
    with False "1.prems" show ?thesis by (simp add: max_def)
  next
    case True
    from True "1.prems"(1) obtain d sq where
      rd1: "rd (sqrindextumbler st) ?i = Inr d" and rd2: "rd sqrs d = Inr sq"
      by (auto simp: fill_subtotals.simps [of sqrs lasttumbler st] split: sum.splits)
    from rd1 have i: "0 \<le> ?i" "?i < int (length (sqrindextumbler st))"
      and d_def: "d = sqrindextumbler st ! nat ?i"
      by (simp_all add: rd_Inr_iff)
    from rd2 "1.prems"(2,3) have d: "0 \<le> d" "d < numsqrs" "uint sq = (d + 1) * (d + 1)"
      using rd_sqrs_table by blast+
    define v where "v = (if ?i > 0 then subtotaltumbler st ! nat (?i - 1) else 0) + (d + 1) * (d + 1)"
    define st1 where "st1 = st\<lparr>subtotaltumbler := (subtotaltumbler st)[nat ?i := v],
                                 tumbler_i := ?i + 1\<rparr>"
    have ok1: "prefix_ok numsqrs (sqrindextumbler st1) (subtotaltumbler st1) (tumbler_i st1)"
      unfolding st1_def using "1.prems"(4,5,6) i d v_def
      by (simp add: prefix_ok_extend d_def)
    have len1: "length (sqrindextumbler st1) = n" "length (subtotaltumbler st1) = n"
      using "1.prems"(4,5) by (simp_all add: st1_def)
    have goal_from: "sqrindextumbler st' = sqrindextumbler st1 \<and> tmp_table st' = tmp_table st1 \<and>
         length (subtotaltumbler st') = n \<and>
         tumbler_i st' = max (tumbler_i st1) lasttumbler \<and>
         prefix_ok numsqrs (sqrindextumbler st') (subtotaltumbler st') (tumbler_i st')"
    proof (cases "?i > 0")
      case pos: True
      with i "1.prems"(4,5) have rd3: "rd (subtotaltumbler st) (?i - 1) = Inr (subtotaltumbler st ! nat (?i - 1))"
        by (intro rd_in_range) simp_all
      have st1_eq: "st1 = st\<lparr>subtotaltumbler := (subtotaltumbler st)
                [nat ?i := uint sq + subtotaltumbler st ! nat (?i - 1)], tumbler_i := ?i + 1\<rparr>"
        using pos d(3) by (simp add: st1_def v_def add.commute)
      from True "1.prems"(1) rd1 rd2 rd3 pos have "fill_subtotals sqrs lasttumbler st1 = Inr st'"
        by (simp add: fill_subtotals.simps [of sqrs lasttumbler st] st1_eq)
      then show ?thesis
        using "1.IH"(1) [OF True rd1 rd2 pos rd3] "1.prems"(2,3) len1 ok1
        unfolding st1_eq by blast
    next
      case nonpos: False
      have st1_eq: "st1 = st\<lparr>subtotaltumbler := (subtotaltumbler st)[nat ?i := uint sq],
                             tumbler_i := ?i + 1\<rparr>"
        using nonpos d(3) by (simp add: st1_def v_def)
      from True "1.prems"(1) rd1 rd2 nonpos have "fill_subtotals sqrs lasttumbler st1 = Inr st'"
        by (simp add: fill_subtotals.simps [of sqrs lasttumbler st] st1_eq)
      then show ?thesis
        using "1.IH"(2) [OF True rd1 rd2 nonpos] "1.prems"(2,3) len1 ok1
        unfolding st1_eq by blast
    qed
    moreover have "sqrindextumbler st1 = sqrindextumbler st" "tmp_table st1 = tmp_table st"
      "max (tumbler_i st1) lasttumbler = max ?i lasttumbler"
      using True by (simp_all add: st1_def)
    ultimately show ?thesis by metis
  qed
qed

text \<open>
  The index the skip-ahead stores, once the table of squares has been read at it, is below
  the square root of \<open>tempZ\<close>.
\<close>

lemma skip_sqrindex_below_sqrt:
  assumes "1 \<le> tempZ" "numsqrs \<le> MAXB - 1"
    and "0 \<le> to_long (skip_sqrindex numsqrs tempZ)" "to_long (skip_sqrindex numsqrs tempZ) < numsqrs"
  shows "to_long (skip_sqrindex numsqrs tempZ) \<le> mpz_sqrt tempZ - 1"
proof -
  define s where "s = mpz_sqrt tempZ"
  have "tempZ < (s + 1) * (s + 1)" unfolding s_def by (rule mpz_sqrt_upper)
  with assms(1) have s_pos: "1 \<le> s"
    using mpz_sqrt_nonneg [of tempZ] unfolding s_def [symmetric]
    by (cases "s = 0") auto
  define u where "u = mpz_get_ui s"
  define u1 where "u1 = (if u > 0 then u - 1 else u)"
  have u: "0 \<le> u" "u \<le> s" "u < 2 ^ 64"
    using s_pos by (simp_all add: u_def mpz_get_ui_def zmod_le_nonneg_dividend)
  then have u1: "0 \<le> u1" "u1 \<le> s - 1" "u1 < 2 ^ 64"
    using s_pos by (auto simp: u1_def)
  have skip: "skip_sqrindex numsqrs tempZ = (if u1 \<ge> numsqrs then to_ulong (numsqrs - 1) else u1)"
    by (simp add: skip_sqrindex_def Let_def u1_def u_def s_def)
  show ?thesis
  proof (cases "u1 \<ge> numsqrs")
    case True
    from assms(3,4) have "1 \<le> numsqrs" by linarith
    with assms(2) have "to_ulong (numsqrs - 1) = numsqrs - 1" "numsqrs - 1 < 2 ^ 63"
      by (simp_all add: to_ulong_def MAXB_def)
    with True skip \<open>1 \<le> numsqrs\<close> have "to_long (skip_sqrindex numsqrs tempZ) = numsqrs - 1"
      by (simp add: to_long_def)
    with True u1 show ?thesis unfolding s_def by linarith
  next
    case False
    with skip have eq: "skip_sqrindex numsqrs tempZ = u1" by simp
    have "to_long u1 = u1"
    proof (cases "u1 < 2 ^ 63")
      case True
      with u1 show ?thesis by (simp add: to_long_def)
    next
      case False
      with u1 have "to_long u1 < 0" by (simp add: to_long_def)
      with assms(3) eq show ?thesis by simp
    qed
    with eq u1 show ?thesis unfolding s_def by simp
  qed
qed

lemma skipped_squares_small:
  assumes "1 \<le> tempZ" "0 \<le> k" "k < d'" "d' \<le> mpz_sqrt tempZ - 1"
  shows "(k + 1) * (k + 1) < tempZ"
proof -
  define s where "s = mpz_sqrt tempZ"
  from assms have "k + 1 \<le> s - 1" "0 \<le> k + 1" unfolding s_def by simp_all
  then have "(k + 1) * (k + 1) \<le> (s - 1) * (s - 1)"
    by (intro mult_mono) simp_all
  also have "\<dots> < s * s"
    using \<open>k + 1 \<le> s - 1\<close> \<open>0 \<le> k + 1\<close> by (simp add: algebra_simps)
  also have "\<dots> \<le> tempZ"
    unfolding s_def using assms(1) by (intro mpz_sqrt_lower) simp
  finally show ?thesis .
qed

text \<open>The last subtotal and the skip-ahead.\<close>

lemma last_subtotal_facts:
  assumes run: "last_subtotal sqrs numsqrs b_min_sqr st = Inr st'"
    and sqrs: "sqrs = sqrs_table (nat numsqrs)" "numsqrs \<le> MAXB - 1"
    and len: "length (sqrindextumbler st) = n" "length (subtotaltumbler st) = n"
  shows "\<exists>d'. 1 \<le> tumbler_i st \<and> tumbler_i st < int n \<and>
           tumbler_i st' = tumbler_i st \<and> tmp_table st' = tmp_table st \<and>
           sqrindextumbler st' = (sqrindextumbler st)[nat (tumbler_i st) := d'] \<and>
           subtotaltumbler st' = (subtotaltumbler st)
             [nat (tumbler_i st) := subtotaltumbler st ! nat (tumbler_i st - 1) + (d' + 1) * (d' + 1)] \<and>
           0 \<le> d' \<and> d' < numsqrs \<and> sqrindextumbler st ! nat (tumbler_i st) \<le> d' \<and>
           (\<forall>k. sqrindextumbler st ! nat (tumbler_i st) \<le> k \<and> k < d' \<longrightarrow>
                subtotaltumbler st ! nat (tumbler_i st - 1) + (k + 1) * (k + 1) < b_min_sqr)"
proof -
  let ?i = "tumbler_i st"
  from run obtain prev d0 sq where
    rd1: "rd (subtotaltumbler st) (?i - 1) = Inr prev" and
    rd2: "rd (sqrindextumbler st) ?i = Inr d0" and
    rd3: "rd sqrs d0 = Inr sq"
    by (auto simp: last_subtotal_def Let_def split: sum.splits)
  from rd1 rd2 len have i: "1 \<le> ?i" "?i < int n"
    and prev: "prev = subtotaltumbler st ! nat (?i - 1)"
    and d0: "d0 = sqrindextumbler st ! nat ?i"
    by (simp_all add: rd_Inr_iff)
  from rd3 sqrs have d0_range: "0 \<le> d0" "d0 < numsqrs" "uint sq = (d0 + 1) * (d0 + 1)"
    using rd_sqrs_table by blast+
  define tempZ where "tempZ = b_min_sqr - prev"
  show ?thesis
  proof (cases "d0 = 0 \<and> tempZ \<ge> 1")
    case False
    with run rd1 rd2 rd3 have st': "st' = st\<lparr>subtotaltumbler := (subtotaltumbler st)[nat ?i := prev + uint sq]\<rparr>"
      by (auto simp: last_subtotal_def Let_def tempZ_def)
    have "sqrindextumbler st' = (sqrindextumbler st)[nat ?i := d0]"
      unfolding st' d0 by simp
    with st' i d0_range prev d0 show ?thesis
      by (intro exI [of _ d0]) simp
  next
    case True
    define d' where "d' = to_long (skip_sqrindex numsqrs tempZ)"
    from True run rd1 rd2 rd3 obtain sq' where rd4: "rd sqrs d' = Inr sq'"
      and st': "st' = st\<lparr>subtotaltumbler := (subtotaltumbler st)[nat ?i := prev + uint sq],
                         sqrindextumbler := (sqrindextumbler st)[nat ?i := d'],
                         subtotaltumbler := ((subtotaltumbler st)[nat ?i := prev + uint sq])
                            [nat ?i := prev + uint sq']\<rparr>"
      by (auto simp: last_subtotal_def Let_def tempZ_def d'_def split: sum.splits)
    from rd4 sqrs have d'_range: "0 \<le> d'" "d' < numsqrs" "uint sq' = (d' + 1) * (d' + 1)"
      using rd_sqrs_table by blast+
    have below: "d' \<le> mpz_sqrt tempZ - 1"
      unfolding d'_def using True sqrs(2) d'_range(1,2) [unfolded d'_def]
      by (intro skip_sqrindex_below_sqrt) simp_all
    have skipped: "prev + (k + 1) * (k + 1) < b_min_sqr" if "d0 \<le> k" "k < d'" for k
    proof -
      from True that have "(k + 1) * (k + 1) < tempZ"
        using below by (intro skipped_squares_small [where d' = d']) simp_all
      then show ?thesis by (simp add: tempZ_def)
    qed
    from st' i d'_range prev d0 True skipped show ?thesis
      by (intro exI [of _ d']) simp
  qed
qed

text \<open>The carry.\<close>

lemma carry_facts:
  assumes "carry numsqrs b_max_sqr st = Inr st'"
  shows "length (sqrindextumbler st') = length (sqrindextumbler st) \<and>
         subtotaltumbler st' = subtotaltumbler st \<and> tmp_table st' = tmp_table st \<and>
         tumbler_i st' \<le> tumbler_i st \<and>
         (\<forall>j. int j < tumbler_i st' \<longrightarrow> sqrindextumbler st' ! j = sqrindextumbler st ! j)"
  using assms
proof (induction numsqrs b_max_sqr st rule: carry.induct)
  case (1 numsqrs b_max_sqr st)
  let ?i = "tumbler_i st"
  show ?case
  proof (cases "?i \<ge> 0")
    case False
    with "1.prems" have "st' = st"
      by (simp add: carry.simps [of numsqrs b_max_sqr st])
    then show ?thesis by simp
  next
    case True
    from True "1.prems" obtain d where rd1: "rd (sqrindextumbler st) ?i = Inr d"
      by (auto simp: carry.simps [of numsqrs b_max_sqr st] split: sum.splits)
    show ?thesis
    proof (cases "to_ulong d \<ge> numsqrs")
      case False
      with True rd1 "1.prems" have "st' = st"
        by (simp add: carry.simps [of numsqrs b_max_sqr st])
      then show ?thesis by simp
    next
      case over: True
      define st1 where "st1 = st\<lparr>sqrindextumbler := (sqrindextumbler st)[nat ?i := 0],
                                   tumbler_i := ?i - 1\<rparr>"
      show ?thesis
      proof (cases "?i - 1 \<ge> 0")
        case False
        with True rd1 over "1.prems" have rec: "carry numsqrs b_max_sqr st1 = Inr st'"
          by (simp add: carry.simps [of numsqrs b_max_sqr st] Let_def st1_def)
        from "1.IH"(2) [OF True rd1 over refl refl False [unfolded st1_def]] rec
        have "length (sqrindextumbler st') = length (sqrindextumbler st1) \<and>
              subtotaltumbler st' = subtotaltumbler st1 \<and> tmp_table st' = tmp_table st1 \<and>
              tumbler_i st' \<le> tumbler_i st1 \<and>
              (\<forall>j. int j < tumbler_i st' \<longrightarrow> sqrindextumbler st' ! j = sqrindextumbler st1 ! j)"
          unfolding st1_def by blast
        then show ?thesis
          by (auto simp: st1_def)
      next
        case more: True
        from more "1.prems" True rd1 over obtain subtotal d1 where
          rd2: "rd (subtotaltumbler st1) (?i - 1) = Inr subtotal" and
          rd3: "rd (sqrindextumbler st1) (?i - 1) = Inr d1"
          by (auto simp: carry.simps [of numsqrs b_max_sqr st] Let_def st1_def split: sum.splits)
        define st2 where "st2 = st1\<lparr>sqrindextumbler := (sqrindextumbler st1)
            [nat (?i - 1) := (if mpz_cmp subtotal b_max_sqr > 0 then to_long numsqrs else d1 + 1)]\<rparr>"
        from more "1.prems" True rd1 over rd2 rd3 have rec: "carry numsqrs b_max_sqr st2 = Inr st'"
          by (simp add: carry.simps [of numsqrs b_max_sqr st] Let_def st1_def st2_def)
        from "1.IH"(1) [OF True rd1 over refl refl more rd2 [unfolded st1_def] rd3 [unfolded st1_def]]
          rec
        have "length (sqrindextumbler st') = length (sqrindextumbler st2) \<and>
              subtotaltumbler st' = subtotaltumbler st2 \<and> tmp_table st' = tmp_table st2 \<and>
              tumbler_i st' \<le> tumbler_i st2 \<and>
              (\<forall>j. int j < tumbler_i st' \<longrightarrow> sqrindextumbler st' ! j = sqrindextumbler st2 ! j)"
          unfolding st1_def st2_def by blast
        then show ?thesis
          by (auto simp: st1_def st2_def)
      qed
    qed
  qed
qed

lemma prefix_ok_update_digit:
  assumes "prefix_ok numsqrs ds sub i" "i \<le> int k"
  shows "prefix_ok numsqrs (ds[k := d]) sub i"
  unfolding prefix_ok_def
proof (intro allI impI)
  fix j assume j: "int j < i"
  with assms(2) have "j < k" by linarith
  then have "ds[k := d] ! j = ds ! j" "prefix_sum (ds[k := d]) (Suc j) = prefix_sum ds (Suc j)"
    by (simp_all add: prefix_sum_update)
  with assms(1) j show "0 \<le> ds[k := d] ! j \<and> ds[k := d] ! j < numsqrs \<and>
      sub ! j = prefix_sum (ds[k := d]) (Suc j)"
    by (simp add: prefix_ok_def)
qed

lemma prefix_ok_same_below:
  assumes ok: "prefix_ok numsqrs ds sub i" and le: "i' \<le> i" "i' \<le> int (length ds)"
    and len: "length ds' = length ds"
    and same: "\<forall>j. int j < i' \<longrightarrow> ds' ! j = ds ! j"
  shows "prefix_ok numsqrs ds' sub i'"
  unfolding prefix_ok_def
proof (intro allI impI)
  fix j assume j: "int j < i'"
  have "ds' ! m = ds ! m" if "m < Suc j" for m
  proof -
    from that j have "int m < i'" by simp
    with same show ?thesis by blast
  qed
  moreover have "Suc j \<le> length ds'" "Suc j \<le> length ds"
    using j le(2) len by simp_all
  ultimately have "take (Suc j) ds' = take (Suc j) ds"
    by (intro nth_take_lemma) simp_all
  then have "prefix_sum ds' (Suc j) = prefix_sum ds (Suc j)"
    by (simp add: prefix_sum_def)
  moreover from same j have "ds' ! j = ds ! j" by blast
  moreover from ok j le(1) have "0 \<le> ds ! j \<and> ds ! j < numsqrs \<and> sub ! j = prefix_sum ds (Suc j)"
    by (simp add: prefix_ok_def)
  ultimately show "0 \<le> ds' ! j \<and> ds' ! j < numsqrs \<and> sub ! j = prefix_sum ds' (Suc j)"
    by simp
qed

text \<open>The entry that \<^verbatim>\<open>SaveToTuple\<close> records.\<close>

lemma root_in_range:
  assumes "b_min * b_min \<le> r * r" "r * r \<le> b_max * b_max" "0 \<le> r" "0 \<le> b_max"
  shows "b_min \<le> r \<and> r \<le> (b_max :: int)"
proof
  show "b_min \<le> r"
  proof (rule ccontr)
    assume "\<not> b_min \<le> r"
    with assms(3) have "r * r < b_min * b_min"
      by (intro mult_strict_mono') simp_all
    with assms(1) show False by simp
  qed
  show "r \<le> b_max"
  proof (rule ccontr)
    assume "\<not> r \<le> b_max"
    with assms(4) have "b_max * b_max < r * r"
      by (intro mult_strict_mono') simp_all
    with assms(2) show False by simp
  qed
qed

lemma SaveToTuple_entry:
  assumes digits: "\<forall>d \<in> set sqrindexes. 0 \<le> d \<and> d < numsqrs" and "numsqrs \<le> MAXB - 1"
    and total: "subtotal = sum_sqr (avalues_of sqrindexes)"
    and range: "b_min * b_min \<le> subtotal" "subtotal \<le> b_max * b_max" "0 \<le> b_max"
    and square: "mpz_perfect_square_p subtotal"
  shows "\<exists>e. SaveToTuple the_table sqrindexes subtotal = the_table @ [e] \<and>
              entry_sound b_min b_max e \<and> entry_canonical (length sqrindexes) e"
proof -
  have "map (\<lambda>sqrindex. to_ulong (sqrindex + 1)) sqrindexes = avalues_of sqrindexes"
    unfolding avalues_of_def
  proof (rule map_cong [OF refl])
    fix d assume "d \<in> set sqrindexes"
    with digits assms(2) have "0 \<le> d + 1" "d + 1 < 2 ^ 64"
      by (auto simp: MAXB_def)
    then show "to_ulong (d + 1) = d + 1" by (simp add: to_ulong_def)
  qed
  then have save: "SaveToTuple the_table sqrindexes subtotal =
      the_table @ [\<lparr>tentry_a = qsort tentry_avalues_cmpfunc (avalues_of sqrindexes),
                    tentry_b = mpz_sqrt subtotal\<rparr>]"
    by (simp add: SaveToTuple_def MovePTuple_def)
  let ?e = "\<lparr>tentry_a = qsort tentry_avalues_cmpfunc (avalues_of sqrindexes),
             tentry_b = mpz_sqrt subtotal\<rparr>"
  have sq: "mpz_sqrt subtotal * mpz_sqrt subtotal = subtotal"
    using square by (rule mpz_perfect_square_p_sqrt)
  have "b_min \<le> mpz_sqrt subtotal \<and> mpz_sqrt subtotal \<le> b_max"
    using range by (intro root_in_range) (simp_all add: sq)
  then have "entry_sound b_min b_max ?e"
    using sq by (simp add: entry_sound_def total [symmetric])
  moreover have "entry_canonical (length sqrindexes) ?e"
    by (simp add: entry_canonical_def qsort_avalues_sorted avalues_of_def)
  ultimately show ?thesis using save by blast
qed

text \<open>The range test, the recording and the advance re-establish the invariant.\<close>

lemma test_and_advance_inv:
  assumes run: "test_and_advance numsqrs (b_min * b_min) (b_max * b_max) st = Inr st'"
    and len: "length (sqrindextumbler st) = n" "length (subtotaltumbler st) = n"
    and i: "tumbler_i st + 1 = int n"
    and ok: "prefix_ok numsqrs (sqrindextumbler st) (subtotaltumbler st) (int n)"
    and tbl: "\<forall>e \<in> set (tmp_table st). entry_sound b_min b_max e \<and> entry_canonical n e"
    and bounds: "numsqrs \<le> MAXB - 1" "0 \<le> b_max"
  shows "tumbler_inv numsqrs n b_min b_max st'"
proof -
  let ?i = "tumbler_i st"
  from run obtain subtotal d where
    rd1: "rd (subtotaltumbler st) ?i = Inr subtotal" and rd2: "rd (sqrindextumbler st) ?i = Inr d"
    by (auto simp: test_and_advance_def Let_def split: sum.splits)
  from rd1 have i_range: "0 \<le> ?i" and subtotal: "subtotal = subtotaltumbler st ! nat ?i"
    by (simp_all add: rd_Inr_iff)
  define save where "save \<longleftrightarrow> \<not> (mpz_cmp subtotal (b_min * b_min) < 0 \<or>
      mpz_cmp subtotal (b_max * b_max) > 0) \<and> mpz_perfect_square_p subtotal"
  define st1 where "st1 = (if save
      then st\<lparr>tmp_table := SaveToTuple (tmp_table st) (sqrindextumbler st) subtotal\<rparr> else st)"
  define st2 where "st2 = st1\<lparr>sqrindextumbler := (sqrindextumbler st1)
      [nat ?i := (if mpz_cmp subtotal (b_max * b_max) > 0 then to_long numsqrs else d + 1)]\<rparr>"
  have i1: "tumbler_i st1 = ?i" by (simp add: st1_def)
  from run rd1 rd2 have carry: "carry numsqrs (b_max * b_max) st2 = Inr st'"
    by (simp add: test_and_advance_def Let_def st2_def st1_def save_def i1)
  have digits: "\<forall>d \<in> set (sqrindextumbler st). 0 \<le> d \<and> d < numsqrs"
  proof
    fix x assume "x \<in> set (sqrindextumbler st)"
    then obtain j where "j < n" "x = sqrindextumbler st ! j"
      using len(1) by (auto simp: in_set_conv_nth)
    with ok show "0 \<le> x \<and> x < numsqrs" by (simp add: prefix_ok_def)
  qed
  have total: "subtotal = sum_sqr (avalues_of (sqrindextumbler st))"
  proof -
    from i i_range have "int (nat ?i) < int n" "Suc (nat ?i) = n" by simp_all
    with ok have "subtotaltumbler st ! nat ?i = prefix_sum (sqrindextumbler st) n"
      unfolding prefix_ok_def by metis
    with subtotal len(1) show ?thesis by (simp add: prefix_sum_all)
  qed
  have tbl1: "\<forall>e \<in> set (tmp_table st1). entry_sound b_min b_max e \<and> entry_canonical n e"
  proof (cases save)
    case False
    with tbl show ?thesis by (simp add: st1_def)
  next
    case True
    then have "b_min * b_min \<le> subtotal" "subtotal \<le> b_max * b_max" "mpz_perfect_square_p subtotal"
      by (simp_all add: save_def)
    with digits bounds total obtain e where
      "SaveToTuple (tmp_table st) (sqrindextumbler st) subtotal = tmp_table st @ [e]"
      "entry_sound b_min b_max e" "entry_canonical (length (sqrindextumbler st)) e"
      using SaveToTuple_entry [of "sqrindextumbler st" numsqrs subtotal b_min b_max "tmp_table st"]
      by blast
    with True tbl len(1) show ?thesis by (auto simp: st1_def)
  qed
  from carry_facts [OF carry]
  have c: "length (sqrindextumbler st') = length (sqrindextumbler st2)"
    "subtotaltumbler st' = subtotaltumbler st2" "tmp_table st' = tmp_table st2"
    "tumbler_i st' \<le> tumbler_i st2"
    "\<forall>j. int j < tumbler_i st' \<longrightarrow> sqrindextumbler st' ! j = sqrindextumbler st2 ! j"
    by blast+
  have st2_facts: "length (sqrindextumbler st2) = n" "subtotaltumbler st2 = subtotaltumbler st"
    "tmp_table st2 = tmp_table st1" "tumbler_i st2 = ?i"
    using len by (auto simp: st2_def st1_def)
  have same: "\<forall>j. int j < tumbler_i st' \<longrightarrow> sqrindextumbler st' ! j = sqrindextumbler st ! j"
  proof (intro allI impI)
    fix j assume j: "int j < tumbler_i st'"
    with c(4) st2_facts(4) have "j \<noteq> nat ?i" by linarith
    then have "sqrindextumbler st2 ! j = sqrindextumbler st ! j"
      by (simp add: st2_def st1_def)
    with c(5) j show "sqrindextumbler st' ! j = sqrindextumbler st ! j" by simp
  qed
  have "prefix_ok numsqrs (sqrindextumbler st') (subtotaltumbler st) (tumbler_i st')"
  proof (rule prefix_ok_same_below [OF ok])
    show "tumbler_i st' \<le> int n" "tumbler_i st' \<le> int (length (sqrindextumbler st))"
      using c(4) st2_facts(4) i len(1) by simp_all
    show "length (sqrindextumbler st') = length (sqrindextumbler st)"
      using c(1) st2_facts(1) len(1) by simp
    show "\<forall>j. int j < tumbler_i st' \<longrightarrow> sqrindextumbler st' ! j = sqrindextumbler st ! j"
      by (rule same)
  qed
  with c st2_facts tbl1 len i show ?thesis
    by (simp add: tumbler_inv_def)
qed

text \<open>One pass of the outer loop keeps the invariant.\<close>

lemma tumbler_step_inv:
  assumes inv: "tumbler_inv numsqrs n b_min b_max st"
    and run: "tumbler_step (sqrs_table (nat numsqrs)) numsqrs (int n - 1)
                (b_min * b_min) (b_max * b_max) st = Inr st'"
    and bounds: "numsqrs \<le> MAXB - 1" "0 \<le> b_max"
  shows "tumbler_inv numsqrs n b_min b_max st'"
proof -
  let ?sqrs = "sqrs_table (nat numsqrs)"
  from run obtain st1 st2 where
    fill: "fill_subtotals ?sqrs (int n - 1) st = Inr st1" and
    last: "last_subtotal ?sqrs numsqrs (b_min * b_min) st1 = Inr st2" and
    adv: "test_and_advance numsqrs (b_min * b_min) (b_max * b_max) st2 = Inr st'"
    by (auto simp: tumbler_step_def split: sum.splits)
  from inv have len: "length (sqrindextumbler st) = n" "length (subtotaltumbler st) = n"
    and i: "tumbler_i st < int n"
    and ok: "prefix_ok numsqrs (sqrindextumbler st) (subtotaltumbler st) (tumbler_i st)"
    and tbl: "\<forall>e \<in> set (tmp_table st). entry_sound b_min b_max e \<and> entry_canonical n e"
    by (simp_all add: tumbler_inv_def)
  from fill_subtotals_facts [OF fill refl bounds(1) len ok]
  have f: "sqrindextumbler st1 = sqrindextumbler st" "tmp_table st1 = tmp_table st"
    "length (subtotaltumbler st1) = n" "tumbler_i st1 = max (tumbler_i st) (int n - 1)"
    "prefix_ok numsqrs (sqrindextumbler st1) (subtotaltumbler st1) (tumbler_i st1)"
    by blast+
  from f(4) i have i1: "tumbler_i st1 = int n - 1" by simp
  from last_subtotal_facts [OF last refl bounds(1), of n] f(1,3) len(1)
  obtain d' where l: "1 \<le> tumbler_i st1" "tumbler_i st2 = tumbler_i st1"
    "tmp_table st2 = tmp_table st1"
    "sqrindextumbler st2 = (sqrindextumbler st1)[nat (tumbler_i st1) := d']"
    "subtotaltumbler st2 = (subtotaltumbler st1)
       [nat (tumbler_i st1) := subtotaltumbler st1 ! nat (tumbler_i st1 - 1) + (d' + 1) * (d' + 1)]"
    "0 \<le> d'" "d' < numsqrs"
    by auto
  let ?k = "nat (tumbler_i st1)"
  have "prefix_ok numsqrs (sqrindextumbler st2) (subtotaltumbler st1) (tumbler_i st1)"
    unfolding l(4) using f(5) l(1) by (intro prefix_ok_update_digit) simp_all
  then have "prefix_ok numsqrs (sqrindextumbler st2) (subtotaltumbler st2) (tumbler_i st1 + 1)"
    unfolding l(5)
  proof (rule prefix_ok_extend)
    show "0 \<le> tumbler_i st1" using l(1) by simp
    show "?k < length (sqrindextumbler st2)"
      using l(4) f(1) len(1) i1 l(1) by simp
    show "length (subtotaltumbler st1) = length (sqrindextumbler st2)"
      using l(4) f(1,3) len(1) by simp
    have nth: "sqrindextumbler st2 ! ?k = d'"
      using l(4) f(1) len(1) i1 l(1) by simp
    show "0 \<le> sqrindextumbler st2 ! ?k" "sqrindextumbler st2 ! ?k < numsqrs"
      using nth l(6,7) by simp_all
    show "subtotaltumbler st1 ! nat (tumbler_i st1 - 1) + (d' + 1) * (d' + 1) =
          (if 0 < tumbler_i st1 then subtotaltumbler st1 ! nat (tumbler_i st1 - 1) else 0) +
          (sqrindextumbler st2 ! ?k + 1) * (sqrindextumbler st2 ! ?k + 1)"
      using nth l(1) by simp
  qed
  then have ok2: "prefix_ok numsqrs (sqrindextumbler st2) (subtotaltumbler st2) (int n)"
    by (simp add: i1)
  show ?thesis
  proof (rule test_and_advance_inv [OF adv _ _ _ ok2 _ bounds])
    show "length (sqrindextumbler st2) = n" using l(4) f(1) len(1) by simp
    show "length (subtotaltumbler st2) = n" using l(5) f(3) by simp
    show "tumbler_i st2 + 1 = int n" using l(2) i1 by simp
    show "\<forall>e \<in> set (tmp_table st2). entry_sound b_min b_max e \<and> entry_canonical n e"
      using tbl l(3) f(2) by simp
  qed
qed

text \<open>The invariant holds when the loop ends.\<close>

lemma tumbler_loop_inv:
  assumes run: "tumbler_loop (sqrs_table (nat numsqrs)) numsqrs (int n - 1)
                  (b_min * b_min) (b_max * b_max) st = Some (Inr st')"
    and inv: "tumbler_inv numsqrs n b_min b_max st"
    and bounds: "numsqrs \<le> MAXB - 1" "0 \<le> b_max"
  shows "tumbler_inv numsqrs n b_min b_max st'"
proof -
  let ?P = "\<lambda>r :: error + tumblers.
      case r of Inl e \<Rightarrow> True | Inr s \<Rightarrow> tumbler_inv numsqrs n b_min b_max s"
  let ?c = "\<lambda>r. case r of Inl e \<Rightarrow> Inl e
      | Inr s \<Rightarrow> tumbler_step (sqrs_table (nat numsqrs)) numsqrs (int n - 1)
                   (b_min * b_min) (b_max * b_max) s"
  have "?P (Inr st')"
  proof (rule while_option_rule [where P = ?P and b = running and c = ?c])
    show "while_option running ?c (Inr st) = Some (Inr st')"
      using run by (simp add: tumbler_loop_def)
    show "?P (Inr st)" using inv by simp
    fix r assume "?P r" "running r"
    then show "?P (?c r)"
      using tumbler_step_inv [OF _ _ bounds]
      by (auto simp: running_def split: sum.splits)
  qed
  then show ?thesis by simp
qed

lemma tumbler_inv_initial:
  "0 < n \<Longrightarrow> tumbler_inv numsqrs n b_min b_max
     \<lparr>tumbler_i = 0, sqrindextumbler = replicate n 0, subtotaltumbler = replicate n 0,
      tmp_table = []\<rparr>"
  by (simp add: tumbler_inv_def prefix_ok_def)

subsection \<open>The result of the exhaustive engine\<close>

lemma move_tuples_table:
  assumes "\<forall>e \<in> set es. sorted (tentry_a e)"
  shows "snd (move_tuples DoOnlyPrimitives es (out, final_table)) =
         final_table @ filter (\<lambda>e. DoOnlyPrimitives \<longrightarrow>
                                 snd (TupleIsPrimitive (tentry_a e) (tentry_b e))) es"
proof (cases DoOnlyPrimitives)
  case True
  have "snd (move_tuples True es (out, final_table)) =
        final_table @ filter (\<lambda>e. snd (TupleIsPrimitive (tentry_a e) (tentry_b e))) es"
    using assms
    by (induction es arbitrary: out final_table)
      (auto simp: MovePTuple_sorted split: prod.splits)
  with True show ?thesis by simp
next
  case False
  have "snd (move_tuples False es (out, final_table)) = final_table @ es"
    using assms
    by (induction es arbitrary: out final_table) (auto simp: MovePTuple_sorted)
  with False show ?thesis by simp
qed

lemma move_tuples_output:
  assumes "\<forall>e \<in> set es. 2 \<le> length (tentry_a e)"
  shows "fst (move_tuples DoOnlyPrimitives es (out, final_table)) = out"
proof (cases DoOnlyPrimitives)
  case True
  have "fst (move_tuples True es (out, final_table)) = out"
    using assms
    by (induction es arbitrary: out final_table)
      (auto simp: TupleIsPrimitive_long split: prod.splits)
  with True show ?thesis by simp
next
  case False
  have "fst (move_tuples False es (out, final_table)) = out"
    by (induction es arbitrary: out final_table) auto
  with False show ?thesis by simp
qed

lemma entry_sound_determines_b:
  assumes "entry_sound b_min b_max e" "entry_sound b_min b_max e'" "0 \<le> b_min"
    "tentry_a e = tentry_a e'"
  shows "tentry_b e = tentry_b e'"
proof -
  from assms have "(tentry_b e)\<^sup>2 = (tentry_b e')\<^sup>2" "0 \<le> tentry_b e" "0 \<le> tentry_b e'"
    by (simp_all add: entry_sound_def power2_eq_square)
  then show ?thesis by (simp add: power2_eq_iff_nonneg)
qed

text \<open>
  What \<^verbatim>\<open>BuildNTuples\<close> of ptuples returns for arguments that \<^verbatim>\<open>main\<close> accepts: it prints
  nothing, and its table holds sound entries in canonical form, in canonical order, no
  a-vector twice.
\<close>

lemma BuildNTuples_result:
  assumes run: "BuildNTuples [] DoOnlyPrimitives b_min b_max N = Some (Inr (out, tuples))"
    and args: "1 \<le> b_min" "b_min \<le> b_max" "b_max \<le> MAXB" "3 \<le> N"
  shows "out = [] \<and>
         (\<forall>e \<in> set tuples. entry_sound b_min b_max e \<and> entry_canonical (nat (N - 1)) e) \<and>
         sorted_wrt canonical_le tuples \<and> distinct (map tentry_a tuples)"
proof -
  define n where "n = nat (N - 1)"
  define numsqrs where "numsqrs = mpz_get_ui (b_max - 1)"
  have numsqrs: "numsqrs = b_max - 1" "numsqrs \<le> MAXB - 1"
    using args by (simp_all add: numsqrs_def mpz_get_ui_def MAXB_def)
  have n: "0 < n" "2 \<le> n" "N - 1 - 1 = int n - 1" "nat (N - 1) = n"
    using args by (simp_all add: n_def)
  let ?st0 = "\<lparr>tumbler_i = 0, sqrindextumbler = replicate n 0, subtotaltumbler = replicate n 0,
               tmp_table = []\<rparr>"
  let ?loop = "tumbler_loop (sqrs_table (nat numsqrs)) numsqrs (int n - 1) (b_min * b_min)
             (b_max * b_max) ?st0"
  have unfold: "BuildNTuples [] DoOnlyPrimitives b_min b_max N =
      (case ?loop of
         None \<Rightarrow> None
       | Some (Inl e) \<Rightarrow> Some (Inl e)
       | Some (Inr st) \<Rightarrow>
           (case RemDupTuples (tmp_table st) of
              Inl e \<Rightarrow> Some (Inl e)
            | Inr tmp \<Rightarrow> Some (Inr (move_tuples DoOnlyPrimitives tmp ([], [])))))"
    unfolding BuildNTuples_def Let_def numsqrs_def n ..
  from run obtain st where loop: "?loop = Some (Inr st)"
    unfolding unfold by (cases ?loop) (auto split: sum.splits)
  from run obtain tmp where dedup: "RemDupTuples (tmp_table st) = Inr tmp"
    unfolding unfold loop by (cases "RemDupTuples (tmp_table st)") auto
  from run have moved: "(out, tuples) = move_tuples DoOnlyPrimitives tmp ([], [])"
    unfolding unfold loop by (simp add: dedup)
  have "tumbler_inv numsqrs n b_min b_max st"
  proof (rule tumbler_loop_inv [OF loop])
    show "tumbler_inv numsqrs n b_min b_max ?st0"
      by (rule tumbler_inv_initial [OF n(1)])
    show "numsqrs \<le> MAXB - 1" by (rule numsqrs(2))
    show "0 \<le> b_max" using args(1,2) by simp
  qed
  then have entries: "\<forall>e \<in> set (tmp_table st). entry_sound b_min b_max e \<and> entry_canonical n e"
    by (simp add: tumbler_inv_def)
  then have uni: "uniform n (tmp_table st)" and asc: "\<forall>e \<in> set (tmp_table st). sorted (tentry_a e)"
    by (simp_all add: uniform_iff entry_canonical_def)
  let ?S = "qsort ttable_tentry_cmpfunc (tmp_table st)"
  from dedup RemDupTuples_collapse [OF uni asc] have tmp: "tmp = collapse_runs ?S"
    by simp
  have sub: "set tmp \<subseteq> set (tmp_table st)"
    unfolding tmp using set_collapse_runs_subset [of ?S] by simp
  have sorted_tmp: "sorted_wrt canonical_le tmp"
    unfolding tmp using uni by (intro sorted_wrt_collapse_runs sorted_canonical_qsort)
  have distinct_tmp: "distinct (map tentry_a tmp)"
    unfolding tmp
  proof (rule distinct_collapse_runs [where n = n])
    show "sorted_wrt canonical_le ?S" using uni by (rule sorted_canonical_qsort)
    show "uniform n ?S" using uni by simp
    show "\<forall>e \<in> set ?S. \<forall>e' \<in> set ?S. tentry_a e = tentry_a e' \<longrightarrow> tentry_b e = tentry_b e'"
    proof (intro ballI impI)
      fix e e' assume "e \<in> set ?S" "e' \<in> set ?S" "tentry_a e = tentry_a e'"
      with entries args(1) show "tentry_b e = tentry_b e'"
        by (intro entry_sound_determines_b [of b_min b_max e e']) simp_all
    qed
  qed
  have asc_tmp: "\<forall>e \<in> set tmp. sorted (tentry_a e)" "\<forall>e \<in> set tmp. 2 \<le> length (tentry_a e)"
    using entries sub n(2) by (auto simp: entry_canonical_def)
  have tuples: "tuples = filter (\<lambda>e. DoOnlyPrimitives \<longrightarrow>
      snd (TupleIsPrimitive (tentry_a e) (tentry_b e))) tmp"
    using move_tuples_table [OF asc_tmp(1), of DoOnlyPrimitives "[]" "[]"] moved
    by (metis append_Nil snd_conv)
  have out: "out = []"
    using move_tuples_output [OF asc_tmp(2), of DoOnlyPrimitives "[]" "[]"] moved
    by (metis fst_conv)
  have "\<forall>e \<in> set tuples. entry_sound b_min b_max e \<and> entry_canonical n e"
    using entries sub unfolding tuples by auto
  moreover have "sorted_wrt canonical_le tuples"
    unfolding tuples using sorted_tmp by (rule sorted_wrt_filter)
  moreover have "distinct (map tentry_a tuples)"
    unfolding tuples using distinct_tmp by (rule distinct_map_filter)
  ultimately show ?thesis using out n(4) by simp
qed

text \<open>
  C7.  In a state that satisfies the loop invariant (as every state the enumeration reaches
  does: \<open>tumbler_inv_initial\<close>, \<open>tumbler_step_inv\<close>), once the subtotals are filled, the
  skip-ahead moves the last tumbler from its square index to a new one.  Every combination
  it jumps over, that is the same earlier tumblers with the last square index \<open>k\<close> from the
  old one up to but not including the new one, has a sum of squares below \<open>b_min\<^sup>2\<close>.
\<close>

theorem skip_ahead_sound:
  assumes inv: "tumbler_inv numsqrs n b_min b_max st"
    and bound: "numsqrs \<le> MAXB - 1"
    and fill: "fill_subtotals (sqrs_table (nat numsqrs)) (int n - 1) st = Inr st1"
    and skip: "last_subtotal (sqrs_table (nat numsqrs)) numsqrs (b_min * b_min) st1 = Inr st2"
    and k: "sqrindextumbler st1 ! (n - 1) \<le> k" "k < sqrindextumbler st2 ! (n - 1)"
  shows "sum_sqr (avalues_of ((sqrindextumbler st1)[n - 1 := k])) < b_min * b_min"
proof -
  from inv have len: "length (sqrindextumbler st) = n" "length (subtotaltumbler st) = n"
    and i: "tumbler_i st < int n"
    and ok: "prefix_ok numsqrs (sqrindextumbler st) (subtotaltumbler st) (tumbler_i st)"
    by (simp_all add: tumbler_inv_def)
  from fill_subtotals_facts [OF fill refl bound len ok]
  have f: "sqrindextumbler st1 = sqrindextumbler st" "length (subtotaltumbler st1) = n"
    "tumbler_i st1 = max (tumbler_i st) (int n - 1)"
    "prefix_ok numsqrs (sqrindextumbler st1) (subtotaltumbler st1) (tumbler_i st1)"
    by blast+
  from f(3) i have i1: "tumbler_i st1 = int n - 1" by simp
  from last_subtotal_facts [OF skip refl bound, of n] f(1,2) len(1)
  obtain d' where l: "1 \<le> tumbler_i st1"
    "sqrindextumbler st2 = (sqrindextumbler st1)[nat (tumbler_i st1) := d']"
    "\<forall>k. sqrindextumbler st1 ! nat (tumbler_i st1) \<le> k \<and> k < d' \<longrightarrow>
         subtotaltumbler st1 ! nat (tumbler_i st1 - 1) + (k + 1) * (k + 1) < b_min * b_min"
    by auto
  from i1 l(1) have n: "2 \<le> n" "nat (tumbler_i st1) = n - 1" "nat (tumbler_i st1 - 1) = n - 2"
    by simp_all
  let ?ds = "sqrindextumbler st1"
  have len1: "length ?ds = n" using f(1) len(1) by simp
  from l(2) n len1 have "sqrindextumbler st2 ! (n - 1) = d'" by simp
  with k l(3) n have small: "subtotaltumbler st1 ! (n - 2) + (k + 1) * (k + 1) < b_min * b_min"
    by simp
  have "int (n - 2) < tumbler_i st1" using i1 n(1) by simp
  with f(4) have "subtotaltumbler st1 ! (n - 2) = prefix_sum ?ds (Suc (n - 2))"
    unfolding prefix_ok_def by blast
  then have prev: "subtotaltumbler st1 ! (n - 2) = prefix_sum ?ds (n - 1)"
    using n(1) by (simp add: Suc_diff_Suc numeral_2_eq_2)
  obtain m where m: "n = Suc m" using n(1) by (cases n) auto
  have "sum_sqr (avalues_of (?ds[m := k])) = prefix_sum (?ds[m := k]) (Suc m)"
    using len1 m by (simp add: prefix_sum_all)
  also have "\<dots> = prefix_sum (?ds[m := k]) m + (?ds[m := k] ! m + 1) * (?ds[m := k] ! m + 1)"
    using len1 m by (intro prefix_sum_Suc) simp
  also have "\<dots> = prefix_sum ?ds m + (k + 1) * (k + 1)"
    using len1 m by (simp add: prefix_sum_update)
  finally show ?thesis using small prev m by simp
qed

theorem skip_ahead_sound_witness:
  "tumbler_inv 9 2 5 10
     \<lparr>tumbler_i = 0, sqrindextumbler = [0, 0], subtotaltumbler = [0, 0], tmp_table = []\<rparr> \<and>
   fill_subtotals (sqrs_table 9) 1
     \<lparr>tumbler_i = 0, sqrindextumbler = [0, 0], subtotaltumbler = [0, 0], tmp_table = []\<rparr> =
     Inr \<lparr>tumbler_i = 1, sqrindextumbler = [0, 0], subtotaltumbler = [1, 0], tmp_table = []\<rparr> \<and>
   last_subtotal (sqrs_table 9) 9 25
     \<lparr>tumbler_i = 1, sqrindextumbler = [0, 0], subtotaltumbler = [1, 0], tmp_table = []\<rparr> =
     Inr \<lparr>tumbler_i = 1, sqrindextumbler = [0, 3], subtotaltumbler = [1, 17], tmp_table = []\<rparr> \<and>
   sum_sqr (avalues_of [0, 2]) < 5 * 5"
proof -
  let ?st = "\<lparr>tumbler_i = 0, sqrindextumbler = [0, 0], subtotaltumbler = [0, 0], tmp_table = []\<rparr>"
  let ?st1 = "\<lparr>tumbler_i = 1, sqrindextumbler = [0, 0], subtotaltumbler = [1, 0], tmp_table = []\<rparr>"
  let ?st2 = "\<lparr>tumbler_i = 1, sqrindextumbler = [0, 3], subtotaltumbler = [1, 17], tmp_table = []\<rparr>"
  have inv: "tumbler_inv 9 2 5 10 ?st"
    using tumbler_inv_initial [of 2 9 5 10] by (simp add: numeral_2_eq_2)
  have bound: "(9::int) \<le> MAXB - 1" by (simp add: MAXB_def)
  have fill: "fill_subtotals (sqrs_table (nat 9)) (int 2 - 1) ?st = Inr ?st1"
    by code_simp
  have skip: "last_subtotal (sqrs_table (nat 9)) 9 (5 * 5) ?st1 = Inr ?st2"
    by code_simp
  have "sum_sqr (avalues_of ((sqrindextumbler ?st1)[2 - 1 := 2])) < 5 * 5"
    by (rule skip_ahead_sound [OF inv bound fill skip]) simp_all
  with inv fill skip show ?thesis by simp
qed

subsection \<open>The triple source\<close>

lemma table_ok_iff:
  "table_ok lo hi n tbl \<longleftrightarrow> (\<forall>e \<in> set tbl. entry_sound lo hi e \<and> entry_canonical n e)"
  by (simp add: table_ok_def list_all_iff)

lemma table_ok_Nil [simp]: "table_ok lo hi n []"
  by (simp add: table_ok_def)

lemma table_ok_qsort [simp]: "table_ok lo hi n (qsort cmpfunc tbl) = table_ok lo hi n tbl"
  by (simp add: table_ok_iff)

lemma MovePTuple_table_ok:
  assumes "table_ok lo hi n tbl" "sum_sqr avalues = b * b" "lo \<le> b" "b \<le> hi" "length avalues = n"
  shows "table_ok lo hi n (MovePTuple tbl avalues b)"
  using assms
  by (simp add: table_ok_iff MovePTuple_def entry_sound_def entry_canonical_def qsort_avalues_sorted)

lemma AddPTriple_table_ok:
  assumes "table_ok lo hi 2 tbl" "a_0 * a_0 + a_1 * a_1 = b * b" "lo \<le> b" "b \<le> hi"
  shows "table_ok lo hi 2 (AddPTriple tbl a_0 a_1 b)"
  unfolding AddPTriple_def using assms
  by (intro MovePTuple_table_ok) (simp_all add: sum_sqr_def)

text \<open>
  The loop over \<open>k\<close> ends when \<open>c\<close> is positive, and every triple it adds is a multiple
  of \<open>(a, b, c)\<close> with its third value inside the range.
\<close>

lemma k_loop_total:
  assumes "0 < c" "a * a + b * b = c * c" "table_ok b_min b_max 2 tuples"
  shows "\<exists>t. k_loop tuples a b c b_min b_max k = Some t \<and> table_ok b_min b_max 2 t"
  using assms(3)
proof (induction "nat (b_max + 1 - c * k)" arbitrary: k tuples rule: less_induct)
  case less
  show ?case
  proof (cases "c * k \<le> b_max")
    case False
    then have "k_loop tuples a b c b_min b_max k = Some tuples"
      by (subst k_loop.simps) simp
    with less.prems show ?thesis by simp
  next
    case True
    have smaller: "nat (b_max + 1 - c * (k + 1)) < nat (b_max + 1 - c * k)"
      using True assms(1) by (simp add: algebra_simps)
    show ?thesis
    proof (cases "c * k < b_min")
      case below: True
      from less.hyps [OF smaller less.prems] obtain t where
        "k_loop tuples a b c b_min b_max (k + 1) = Some t" "table_ok b_min b_max 2 t" by blast
      moreover have "k_loop tuples a b c b_min b_max k = k_loop tuples a b c b_min b_max (k + 1)"
        using True below by (subst k_loop.simps) simp
      ultimately show ?thesis by simp
    next
      case inside: False
      have "(a * k) * (a * k) + (b * k) * (b * k) = (a * a + b * b) * (k * k)"
        by (simp add: algebra_simps)
      also have "\<dots> = (c * k) * (c * k)"
        unfolding assms(2) by (simp add: algebra_simps)
      finally have "table_ok b_min b_max 2 (AddPTriple tuples (a * k) (b * k) (c * k))"
        using less.prems True inside by (intro AddPTriple_table_ok) simp_all
      from less.hyps [OF smaller this] obtain t where
        "k_loop (AddPTriple tuples (a * k) (b * k) (c * k)) a b c b_min b_max (k + 1) = Some t"
        "table_ok b_min b_max 2 t" by blast
      moreover have "k_loop tuples a b c b_min b_max k =
          k_loop (AddPTriple tuples (a * k) (b * k) (c * k)) a b c b_min b_max (k + 1)"
        using True inside by (subst k_loop.simps) simp
      ultimately show ?thesis by simp
    qed
  qed
qed

lemma euclid_identity:
  "(m * m - n * n) * (m * m - n * n) + (m * n * 2) * (m * n * 2) =
   (m * m + n * n) * (m * m + n * (n :: int))"
  by (simp add: algebra_simps)

lemma coprime_sum_squares_pos:
  assumes "gcd m n = (1 :: int)"
  shows "0 < m * m + n * n"
proof -
  from assms have "m \<noteq> 0 \<or> n \<noteq> 0" by auto
  then have "0 < m * m \<or> 0 < n * n" by (auto simp: zero_less_mult_iff)
  moreover have "0 \<le> m * m" "0 \<le> n * n" by simp_all
  ultimately show ?thesis by linarith
qed

lemma m_loop_total:
  assumes "table_ok b_min b_max 2 tuples" "working_b_min = (if DoOnlyPrimitives then b_min else 1)"
  shows "\<exists>t. m_loop tuples DoOnlyPrimitives b_min b_max working_b_min n m_max m = Some t \<and>
             table_ok b_min b_max 2 t"
  using assms
proof (induction tuples DoOnlyPrimitives b_min b_max working_b_min n m_max m rule: m_loop.induct)
  case (1 tuples DoOnlyPrimitives b_min b_max working_b_min n m_max m)
  let ?c = "m * m + n * n"
  note unfold = m_loop.simps [of tuples DoOnlyPrimitives b_min b_max working_b_min n m_max m]
  show ?case
  proof (cases "mpz_cmp m m_max \<le> 0")
    case False
    then have "m_loop tuples DoOnlyPrimitives b_min b_max working_b_min n m_max m = Some tuples"
      by (simp add: unfold)
    with "1.prems"(1) show ?thesis by blast
  next
    case cont: True
    show ?thesis
    proof (cases "mpz_cmp (mpz_gcd m n) 1 \<noteq> 0")
      case True
      with "1.IH"(1) [OF cont True "1.prems"] cont show ?thesis
        by (simp add: unfold)
    next
      case coprime: False
      show ?thesis
      proof (cases "mpz_cmp ?c working_b_min < 0")
        case True
        with "1.IH"(2) [OF cont coprime True "1.prems"] cont coprime show ?thesis
          by (simp add: unfold)
      next
        case lo: False
        show ?thesis
        proof (cases "0 < mpz_cmp ?c b_max")
          case True
          with "1.IH"(3) [OF cont coprime lo True "1.prems"] cont coprime lo show ?thesis
            by (simp add: unfold)
        next
          case hi: False
          show ?thesis
          proof (cases DoOnlyPrimitives)
            case True
            have "table_ok b_min b_max 2 (AddPTriple tuples (m * m - n * n) (m * n * 2) ?c)"
              using "1.prems" lo hi True
              by (intro AddPTriple_table_ok euclid_identity) simp_all
            from "1.IH"(4) [OF cont coprime lo hi True this "1.prems"(2)]
            have "\<exists>t. m_loop (AddPTriple tuples (m * m - n * n) (m * n * 2) ?c) DoOnlyPrimitives
                b_min b_max working_b_min n m_max (m + 2) = Some t \<and> table_ok b_min b_max 2 t" .
            moreover have "m_loop tuples DoOnlyPrimitives b_min b_max working_b_min n m_max m =
                m_loop (AddPTriple tuples (m * m - n * n) (m * n * 2) ?c) DoOnlyPrimitives
                b_min b_max working_b_min n m_max (m + 2)"
              by (subst unfold) (use cont coprime lo hi True in simp)
            ultimately show ?thesis by simp
          next
            case False
            from coprime have "0 < ?c"
              by (intro coprime_sum_squares_pos) (simp add: mpz_gcd_def)
            from k_loop_total [OF this euclid_identity "1.prems"(1), of "b_min div ?c"]
            obtain t where k: "k_loop tuples (m * m - n * n) (m * n * 2) ?c b_min b_max
                (b_min div ?c) = Some t" and t: "table_ok b_min b_max 2 t"
              by blast
            from "1.IH"(5) [OF cont coprime lo hi False k t "1.prems"(2)]
            have "\<exists>t'. m_loop t DoOnlyPrimitives b_min b_max working_b_min n m_max (m + 2) = Some t' \<and>
                table_ok b_min b_max 2 t'" .
            moreover have "m_loop tuples DoOnlyPrimitives b_min b_max working_b_min n m_max m =
                m_loop t DoOnlyPrimitives b_min b_max working_b_min n m_max (m + 2)"
              by (subst unfold) (use cont coprime lo hi False k in simp)
            ultimately show ?thesis by simp
          qed
        qed
      qed
    qed
  qed
qed

lemma n_loop_total:
  assumes "table_ok b_min b_max 2 tuples" "working_b_min = (if DoOnlyPrimitives then b_min else 1)"
  shows "\<exists>t. n_loop tuples DoOnlyPrimitives b_min b_max working_b_min n_max n = Some t \<and>
             table_ok b_min b_max 2 t"
  using assms
proof (induction tuples DoOnlyPrimitives b_min b_max working_b_min n_max n rule: n_loop.induct)
  case (1 tuples DoOnlyPrimitives b_min b_max working_b_min n_max n)
  note unfold = n_loop.simps [of tuples DoOnlyPrimitives b_min b_max working_b_min n_max n]
  show ?case
  proof (cases "mpz_cmp n n_max \<le> 0")
    case False
    then have "n_loop tuples DoOnlyPrimitives b_min b_max working_b_min n_max n = Some tuples"
      by (simp add: unfold)
    with "1.prems"(1) show ?thesis by blast
  next
    case True
    from m_loop_total [OF "1.prems", of n "last_m b_max n" "first_m working_b_min n"]
    obtain t where m: "m_loop tuples DoOnlyPrimitives b_min b_max working_b_min n (last_m b_max n)
        (first_m working_b_min n) = Some t" and t: "table_ok b_min b_max 2 t"
      by blast
    from "1.IH" [OF True m t "1.prems"(2)] True m show ?thesis
      by (simp add: unfold)
  qed
qed

text \<open>
  \<^verbatim>\<open>Build3Tuples\<close> always returns, and every triple it adds satisfies \<open>a\<^sup>2 + b\<^sup>2 = c\<^sup>2\<close> with
  \<open>c\<close> in \<open>[b_min, b_max]\<close>.
\<close>

lemma Build3Tuples_total:
  assumes "table_ok b_min b_max 2 tuples"
  shows "\<exists>t. Build3Tuples tuples DoOnlyPrimitives b_min b_max = Some t \<and> table_ok b_min b_max 2 t"
  unfolding Build3Tuples_def Let_def
  by (rule n_loop_total [OF assms refl])

subsection \<open>The approximate engine\<close>

lemma sum_sqr_append [simp]: "sum_sqr (xs @ ys) = sum_sqr xs + sum_sqr ys"
  by (simp add: sum_sqr_def)

lemma sum_sqr_Cons [simp]: "sum_sqr (x # xs) = x * x + sum_sqr xs"
  by (simp add: sum_sqr_def)

lemma sum_sqr_Nil [simp]: "sum_sqr [] = 0"
  by (simp add: sum_sqr_def)

text \<open>
  Replacing the a-value at position \<open>j\<close> by the two a-values of a triple whose b-value
  it is keeps the sum of the squares.
\<close>

lemma substitution_keeps_sum:
  assumes "j < length as" "t0 * t0 + t1 * t1 = as ! j * as ! j"
  shows "sum_sqr (take j as @ [t0, t1] @ drop (j + 1) as) = sum_sqr as"
proof -
  have "as = take j as @ as ! j # drop (Suc j) as"
    using assms(1) by (rule id_take_nth_drop)
  then have "sum_sqr as = sum_sqr (take j as) + as ! j * as ! j + sum_sqr (drop (Suc j) as)"
    by (metis sum_sqr_append sum_sqr_Cons add.assoc)
  with assms(2) show ?thesis by simp
qed

lemma pair_of_length_2: "length as = 2 \<Longrightarrow> as = [as ! 0, as ! 1]"
  by (cases as; cases "tl as") auto

lemma table_ok_nth:
  "table_ok lo hi n tbl \<Longrightarrow> k < length tbl \<Longrightarrow>
   entry_sound lo hi (tbl ! k) \<and> length (tentry_a (tbl ! k)) = n \<and> sorted (tentry_a (tbl ! k))"
  by (simp add: table_ok_iff entry_canonical_def)

lemma subst_loop_table_ok:
  assumes three: "table_ok lo3 hi3 2 threetuple"
    and e: "entry_sound lo hi e" "j < length (tentry_a e)"
    and idx: "index < length threetuple" "tentry_b (threetuple ! index) = tentry_a e ! j"
    and tbl: "table_ok lo hi (Suc (length (tentry_a e))) beingbuilt_table"
  shows "table_ok lo hi (Suc (length (tentry_a e))) (subst_loop threetuple e j index beingbuilt_table)"
  using assms
proof (induction threetuple e j index beingbuilt_table rule: subst_loop.induct)
  case (1 threetuple e j index beingbuilt_table)
  note three = "1.prems"(1) and e = "1.prems"(2,3) and idx = "1.prems"(4,5) and tbl = "1.prems"(6)
  let ?t = "threetuple ! index"
  let ?avalues = "take j (tentry_a e) @ [tentry_a ?t ! 0, tentry_a ?t ! 1] @ drop (j + 1) (tentry_a e)"
  let ?tbl = "MovePTuple beingbuilt_table ?avalues (tentry_b e)"
  from table_ok_nth [OF three idx(1)]
  have t: "entry_sound lo3 hi3 ?t" "length (tentry_a ?t) = 2"
    by simp_all
  then have "tentry_a ?t ! 0 * tentry_a ?t ! 0 + tentry_a ?t ! 1 * tentry_a ?t ! 1 =
      tentry_b ?t * tentry_b ?t"
    using pair_of_length_2 [of "tentry_a ?t"]
    by (metis entry_sound_def sum_sqr_Cons sum_sqr_Nil add.right_neutral add.assoc)
  with idx(2) e(2) have "sum_sqr ?avalues = sum_sqr (tentry_a e)"
    by (intro substitution_keeps_sum) simp_all
  with e(1) have "sum_sqr ?avalues = tentry_b e * tentry_b e" "lo \<le> tentry_b e" "tentry_b e \<le> hi"
    by (simp_all add: entry_sound_def)
  moreover have "length ?avalues = Suc (length (tentry_a e))"
    using e(2) by simp
  ultimately have ok: "table_ok lo hi (Suc (length (tentry_a e))) ?tbl"
    using tbl by (intro MovePTuple_table_ok)
  show ?case
  proof (cases "index + 1 < length threetuple \<and>
      mpz_cmp (tentry_a e ! j) (tentry_b (threetuple ! (index + 1))) = 0")
    case True
    then have "table_ok lo hi (Suc (length (tentry_a e)))
        (subst_loop threetuple e j (index + 1) ?tbl)"
      using ok three e by (intro "1.IH" [OF refl refl True]) simp_all
    moreover have "subst_loop threetuple e j index beingbuilt_table =
        subst_loop threetuple e j (index + 1) ?tbl"
      by (subst subst_loop.simps) (use True in \<open>simp add: Let_def\<close>)
    ultimately show ?thesis by simp
  next
    case False
    have "subst_loop threetuple e j index beingbuilt_table = ?tbl"
      by (subst subst_loop.simps) (use False in \<open>auto simp add: Let_def\<close>)
    with ok show ?thesis by simp
  qed
qed

lemma subst_entry_table_ok:
  assumes three: "table_ok lo3 hi3 2 threetuple"
    and e: "entry_sound lo hi e"
    and tbl: "table_ok lo hi (Suc (length (tentry_a e))) beingbuilt_table"
  shows "table_ok lo hi (Suc (length (tentry_a e))) (subst_entry threetuple e beingbuilt_table)"
  unfolding subst_entry_def
proof (rule fold_invariant [where Q = "\<lambda>j. j < length (tentry_a e)"])
  show "table_ok lo hi (Suc (length (tentry_a e))) beingbuilt_table" by (rule tbl)
next
  fix j assume "j \<in> set [0..<length (tentry_a e)]"
  then show "j < length (tentry_a e)" by simp
next
  fix j tbl'
  assume j: "j < length (tentry_a e)" and ok: "table_ok lo hi (Suc (length (tentry_a e))) tbl'"
  let ?index = "GetFirstBIndex threetuple (tentry_a e ! j)"
  show "table_ok lo hi (Suc (length (tentry_a e)))
      (let index = ?index in if 0 \<le> index then subst_loop threetuple e j (nat index) tbl' else tbl')"
  proof (cases "0 \<le> ?index")
    case False
    with ok show ?thesis by (simp add: Let_def)
  next
    case True
    from GetFirstBIndex_found [OF True]
    have "nat ?index < length threetuple" "tentry_b (threetuple ! nat ?index) = tentry_a e ! j"
      by simp_all
    then have "table_ok lo hi (Suc (length (tentry_a e))) (subst_loop threetuple e j (nat ?index) tbl')"
      using three e j ok by (intro subst_loop_table_ok)
    with True show ?thesis by (simp add: Let_def)
  qed
qed

lemma grow_table_table_ok:
  assumes three: "table_ok lo3 hi3 2 threetuple" and small: "table_ok lo hi n onesmaller_table"
  shows "table_ok lo hi (Suc n) (grow_table threetuple onesmaller_table)"
  unfolding grow_table_def
proof (rule fold_invariant [where Q = "\<lambda>e. entry_sound lo hi e \<and> length (tentry_a e) = n"])
  show "table_ok lo hi (Suc n) []" by simp
next
  fix e assume "e \<in> set onesmaller_table"
  with small show "entry_sound lo hi e \<and> length (tentry_a e) = n"
    by (simp add: table_ok_iff entry_canonical_def)
next
  fix e tbl assume "entry_sound lo hi e \<and> length (tentry_a e) = n" "table_ok lo hi (Suc n) tbl"
  then show "table_ok lo hi (Suc n) (subst_entry threetuple e tbl)"
    using subst_entry_table_ok [OF three, of lo hi e tbl] by simp
qed

text \<open>
  The deduplication of qkptuples returns on every table of canonical entries, and each entry
  it returns is an entry of the table.
\<close>

lemma qk_RemDupTuples_loop_total:
  assumes "\<forall>k. i \<le> k \<and> k < length the_table \<longrightarrow>
             length (tentry_a (the_table ! k)) = n \<and> sorted (tentry_a (the_table ! k))"
    and "0 < i \<longrightarrow> tentry_a (the_table ! (i - 1)) = [] \<or> length (tentry_a (the_table ! (i - 1))) = n"
  shows "\<exists>r. qk_RemDupTuples_loop the_table new_table i = Inr r \<and>
             set r \<subseteq> set new_table \<union> set (drop i the_table)"
  using assms
proof (induction the_table new_table i rule: qk_RemDupTuples_loop.induct)
  case (1 the_table new_table i)
  note unfold = qk_RemDupTuples_loop.simps [of the_table new_table i]
  show ?case
  proof (cases "i < length the_table")
    case False
    then show ?thesis by (simp add: unfold)
  next
    case True
    let ?e = "the_table ! i"
    let ?chk = "if i > 0
        then CheckForDuplicateTuple (tentry_a (the_table ! (i - 1))) (tentry_a ?e)
               (int (length (tentry_a (the_table ! (i - 1)))))
        else Inr False"
    from "1.prems"(1) True have cur: "length (tentry_a ?e) = n" "sorted (tentry_a ?e)"
      by simp_all
    have split: "drop i the_table = ?e # drop (Suc i) the_table"
      using True by (simp add: Cons_nth_drop_Suc)
    obtain dup where chk: "?chk = Inr dup"
    proof (cases "i > 0")
      case False
      then show ?thesis by (intro that [of False]) simp
    next
      case pos: True
      with "1.prems"(2) consider "tentry_a (the_table ! (i - 1)) = []"
        | "length (tentry_a (the_table ! (i - 1))) = n" by blast
      then show ?thesis
      proof cases
        case 1
        with pos show ?thesis
          by (intro that [of True]) (simp add: CheckForDuplicateTuple_def)
      next
        case 2
        with cur(1) have "length (tentry_a (the_table ! (i - 1))) = length (tentry_a ?e)"
          by simp
        then have "CheckForDuplicateTuple (tentry_a (the_table ! (i - 1))) (tentry_a ?e)
            (int (length (tentry_a (the_table ! (i - 1))))) =
            Inr (tentry_a (the_table ! (i - 1)) = tentry_a ?e)"
          by (rule CheckForDuplicateTuple_same_length)
        with pos show ?thesis
          by (intro that [of "tentry_a (the_table ! (i - 1)) = tentry_a ?e"]) simp
      qed
    qed
    show ?thesis
    proof (cases dup)
      case True
      have "\<exists>r. qk_RemDupTuples_loop the_table new_table (i + 1) = Inr r \<and>
          set r \<subseteq> set new_table \<union> set (drop (i + 1) the_table)"
      proof (rule "1.IH"(2) [OF \<open>i < length the_table\<close> chk])
        show "\<not> \<not> dup" using True by simp
        show "\<forall>k. i + 1 \<le> k \<and> k < length the_table \<longrightarrow>
            length (tentry_a (the_table ! k)) = n \<and> sorted (tentry_a (the_table ! k))"
          using "1.prems"(1) by simp
        show "0 < i + 1 \<longrightarrow> tentry_a (the_table ! (i + 1 - 1)) = [] \<or>
            length (tentry_a (the_table ! (i + 1 - 1))) = n"
          using cur(1) by simp
      qed
      moreover have "qk_RemDupTuples_loop the_table new_table i =
          qk_RemDupTuples_loop the_table new_table (i + 1)"
        by (subst unfold) (use \<open>i < length the_table\<close> chk True in simp)
      ultimately show ?thesis unfolding split by auto
    next
      case False
      let ?tbl = "the_table[i := moved_out ?e]"
      let ?new = "MovePTuple new_table (tentry_a ?e) (tentry_b ?e)"
      have new: "?new = new_table @ [?e]"
        using cur(2) by (rule MovePTuple_sorted)
      have "\<exists>r. qk_RemDupTuples_loop ?tbl ?new (i + 1) = Inr r \<and>
          set r \<subseteq> set ?new \<union> set (drop (i + 1) ?tbl)"
      proof (rule "1.IH"(1) [OF \<open>i < length the_table\<close> chk])
        show "\<not> dup" by (rule False)
        show "\<forall>k. i + 1 \<le> k \<and> k < length ?tbl \<longrightarrow>
            length (tentry_a (?tbl ! k)) = n \<and> sorted (tentry_a (?tbl ! k))"
          using "1.prems"(1) by simp
        show "0 < i + 1 \<longrightarrow> tentry_a (?tbl ! (i + 1 - 1)) = [] \<or>
            length (tentry_a (?tbl ! (i + 1 - 1))) = n"
          using \<open>i < length the_table\<close> by (simp add: moved_out_def)
      qed
      moreover have "qk_RemDupTuples_loop the_table new_table i =
          qk_RemDupTuples_loop ?tbl ?new (i + 1)"
        by (subst unfold) (use \<open>i < length the_table\<close> chk False in simp)
      moreover have "drop (i + 1) ?tbl = drop (Suc i) the_table"
        by (simp add: drop_update_cancel)
      ultimately show ?thesis unfolding split new by auto
    qed
  qed
qed

lemma qk_RemDupTuples_total:
  assumes "table_ok lo hi n the_table"
  shows "\<exists>r. qk_RemDupTuples the_table = Inr r \<and> table_ok lo hi n r"
proof (cases "length the_table \<le> 1")
  case True
  with assms show ?thesis by (simp add: qk_RemDupTuples_def)
next
  case False
  let ?S = "qsort ttable_tentry_cmpfunc the_table"
  have ok: "table_ok lo hi n ?S" using assms by simp
  have "\<exists>r. qk_RemDupTuples_loop ?S [] 0 = Inr r \<and> set r \<subseteq> set [] \<union> set (drop 0 ?S)"
  proof (rule qk_RemDupTuples_loop_total [where n = n])
    show "\<forall>k. 0 \<le> k \<and> k < length ?S \<longrightarrow>
        length (tentry_a (?S ! k)) = n \<and> sorted (tentry_a (?S ! k))"
      using table_ok_nth [OF ok] by simp
    show "0 < (0::nat) \<longrightarrow> tentry_a (?S ! (0 - 1)) = [] \<or> length (tentry_a (?S ! (0 - 1))) = n"
      by simp
  qed
  then obtain r where "qk_RemDupTuples_loop ?S [] 0 = Inr r" "set r \<subseteq> set the_table"
    by auto
  with False assms show ?thesis
    by (auto simp: qk_RemDupTuples_def table_ok_iff)
qed

lemma entry_sound_raise:
  "entry_sound lo hi e \<Longrightarrow> lo' \<le> tentry_b e \<Longrightarrow> entry_sound (max lo lo') hi e"
  by (simp add: entry_sound_def)


lemma initial_onesmaller_table_ok:
  assumes "table_ok 5 hi 2 threetuple"
  shows "table_ok (max 5 b_min) hi 2 (initial_onesmaller threetuple b_min)"
  unfolding initial_onesmaller_def
proof (rule fold_invariant [where Q = "\<lambda>e. entry_sound 5 hi e \<and> entry_canonical 2 e"])
  show "table_ok (max 5 b_min) hi 2 []" by simp
next
  fix e assume "e \<in> set threetuple"
  with assms show "entry_sound 5 hi e \<and> entry_canonical 2 e"
    by (simp add: table_ok_iff)
next
  fix e :: tentry and tbl
  assume e: "entry_sound 5 hi e \<and> entry_canonical 2 e" and tbl: "table_ok (max 5 b_min) hi 2 tbl"
  show "table_ok (max 5 b_min) hi 2
      (if 0 \<le> mpz_cmp (tentry_b e) b_min
       then MovePTuple tbl [tentry_a e ! 0, tentry_a e ! 1] (tentry_b e) else tbl)"
  proof (cases "0 \<le> mpz_cmp (tentry_b e) b_min")
    case False
    with tbl show ?thesis by simp
  next
    case True
    from e have pair: "[tentry_a e ! 0, tentry_a e ! 1] = tentry_a e"
      using pair_of_length_2 [of "tentry_a e"] by (simp add: entry_canonical_def)
    from e True have "entry_sound (max 5 b_min) hi e"
      by (intro entry_sound_raise) simp_all
    with e tbl have "table_ok (max 5 b_min) hi 2 (tbl @ [e])"
      by (simp add: table_ok_iff)
    moreover from e have "MovePTuple tbl (tentry_a e) (tentry_b e) = tbl @ [e]"
      by (intro MovePTuple_sorted) (simp add: entry_canonical_def)
    ultimately show ?thesis using True unfolding pair by simp
  qed
qed

text \<open>
  The loop over the tuple sizes: with the table for size \<open>tsize - 1\<close> at hand it returns the
  table for size \<open>N\<close>; when it has nothing to do it returns the table built last.
\<close>

lemma grow_sizes_total:
  assumes three: "table_ok lo3 hi3 2 threetuple"
    and cur: "table_ok lo hi (nat (tsize - 2))
        (if tsize > 4 then (case beingbuilt_table of None \<Rightarrow> [] | Some t \<Rightarrow> t)
         else onesmaller_table)"
    and tsize: "4 \<le> tsize"
  shows "\<exists>r. grow_sizes threetuple N tsize onesmaller_table beingbuilt_table = Inr r \<and>
             (if tsize \<le> N then \<exists>t. r = Some t \<and> table_ok lo hi (nat (N - 1)) t
              else r = beingbuilt_table)"
  using assms
proof (induction threetuple N tsize onesmaller_table beingbuilt_table rule: grow_sizes.induct)
  case (1 threetuple N tsize onesmaller_table beingbuilt_table)
  note unfold = grow_sizes.simps [of threetuple N tsize onesmaller_table beingbuilt_table]
  show ?case
  proof (cases "tsize \<le> N")
    case False
    then show ?thesis by (simp add: unfold)
  next
    case True
    define cur where "cur = (if tsize > 4
        then (case beingbuilt_table of None \<Rightarrow> [] | Some t \<Rightarrow> t) else onesmaller_table)"
    from "1.prems"(2) have cur_ok: "table_ok lo hi (nat (tsize - 2)) cur"
      by (simp add: cur_def)
    then have "table_ok lo hi (Suc (nat (tsize - 2))) (grow_table threetuple cur)"
      using "1.prems"(1) by (intro grow_table_table_ok)
    then obtain t where dedup: "qk_RemDupTuples (grow_table threetuple cur) = Inr t"
      and t: "table_ok lo hi (Suc (nat (tsize - 2))) t"
      using qk_RemDupTuples_total by blast
    have size: "Suc (nat (tsize - 2)) = nat (tsize + 1 - 2)"
      using "1.prems"(3) by simp
    have next_ok: "table_ok lo hi (nat (tsize + 1 - 2))
        (if tsize + 1 > 4 then (case Some t of None \<Rightarrow> [] | Some t' \<Rightarrow> t') else cur)"
      using t "1.prems"(3) unfolding size by simp
    from "1.IH" [OF True cur_def dedup "1.prems"(1) next_ok] "1.prems"(3)
    obtain r where rec: "grow_sizes threetuple N (tsize + 1) cur (Some t) = Inr r"
      and r: "if tsize + 1 \<le> N then \<exists>t'. r = Some t' \<and> table_ok lo hi (nat (N - 1)) t'
              else r = Some t"
      by auto
    have step: "grow_sizes threetuple N tsize onesmaller_table beingbuilt_table =
        grow_sizes threetuple N (tsize + 1) cur (Some t)"
      by (subst unfold) (use True dedup in \<open>simp add: Let_def cur_def [symmetric]\<close>)
    have "\<exists>t'. r = Some t' \<and> table_ok lo hi (nat (N - 1)) t'"
    proof (cases "tsize + 1 \<le> N")
      case True
      with r show ?thesis by simp
    next
      case False
      with True have "N = tsize" by simp
      with r False t "1.prems"(3) size show ?thesis by (simp add: nat_diff_distrib)
    qed
    with True step rec show ?thesis by simp
  qed
qed

text \<open>
  What \<^verbatim>\<open>BuildNTuples\<close> of qkptuples does for every tuple size of at least 3: it returns,
  prints nothing, and its table holds sound entries in canonical form, in canonical order;
  for sizes above 3 every b-value is at least 5.
\<close>

lemma qk_BuildNTuples_result:
  assumes "3 \<le> N"
  shows "\<exists>tuples. qk_BuildNTuples [] DoOnlyPrimitives b_min b_max N = Some (Inr ([], tuples)) \<and>
           table_ok (if N = 3 then b_min else max 5 b_min) b_max (nat (N - 1)) tuples \<and>
           sorted_wrt canonical_le tuples"
proof (cases "N = 3")
  case True
  from Build3Tuples_total [of b_min b_max "[]" DoOnlyPrimitives]
  obtain t where t: "Build3Tuples [] DoOnlyPrimitives b_min b_max = Some t"
    "table_ok b_min b_max 2 t" by auto
  then have "uniform 2 t" by (simp add: table_ok_iff uniform_iff entry_canonical_def)
  then have "sorted_wrt canonical_le (qsort ttable_tentry_cmpfunc t)"
    by (rule sorted_canonical_qsort)
  with True t show ?thesis
    by (simp add: qk_BuildNTuples_def)
next
  case False
  with assms have N: "4 \<le> N" by simp
  let ?lo = "max 5 b_min"
  from Build3Tuples_total [of 5 b_max "[]" False]
  obtain t3 where t3: "Build3Tuples [] False 5 b_max = Some t3" "table_ok 5 b_max 2 t3"
    by auto
  let ?three = "qsort ttable_tentry_cmpfunc t3"
  have three: "table_ok 5 b_max 2 ?three" using t3(2) by simp
  have small: "table_ok ?lo b_max 2 (initial_onesmaller ?three b_min)"
    using three by (rule initial_onesmaller_table_ok)
  have "\<exists>r. grow_sizes ?three N 4 (initial_onesmaller ?three b_min) None = Inr r \<and>
      (if 4 \<le> N then \<exists>t. r = Some t \<and> table_ok ?lo b_max (nat (N - 1)) t else r = None)"
    using three small by (intro grow_sizes_total) simp_all
  with N obtain built where grow: "grow_sizes ?three N 4 (initial_onesmaller ?three b_min) None =
      Inr (Some built)" and built: "table_ok ?lo b_max (nat (N - 1)) built"
    by auto
  define n where "n = nat (N - 1)"
  have n: "2 \<le> n" using N by (simp add: n_def)
  obtain out tuples where moved: "move_tuples DoOnlyPrimitives built ([], []) = (out, tuples)"
    by (cases "move_tuples DoOnlyPrimitives built ([], [])")
  have asc: "\<forall>e \<in> set built. sorted (tentry_a e)" "\<forall>e \<in> set built. 2 \<le> length (tentry_a e)"
    using built n by (simp_all add: table_ok_iff entry_canonical_def n_def)
  have tuples: "tuples = filter (\<lambda>e. DoOnlyPrimitives \<longrightarrow>
      snd (TupleIsPrimitive (tentry_a e) (tentry_b e))) built"
    using move_tuples_table [OF asc(1), of DoOnlyPrimitives "[]" "[]"] moved by simp
  have out: "out = []"
    using move_tuples_output [OF asc(2), of DoOnlyPrimitives "[]" "[]"] moved by simp
  have ok: "table_ok ?lo b_max n tuples"
    using built unfolding tuples by (simp add: table_ok_iff n_def)
  then have "uniform n tuples" by (simp add: table_ok_iff uniform_iff entry_canonical_def)
  then have "sorted_wrt canonical_le (qsort ttable_tentry_cmpfunc tuples)"
    by (rule sorted_canonical_qsort)
  moreover have "qk_BuildNTuples [] DoOnlyPrimitives b_min b_max N =
      Some (Inr ([], qsort ttable_tentry_cmpfunc tuples))"
    using False t3(1) grow moved out by (simp add: qk_BuildNTuples_def Let_def)
  ultimately show ?thesis using ok False by (simp add: n_def)
qed

subsection \<open>The two programs\<close>


text \<open>The command lines that \<^verbatim>\<open>main\<close> of ptuples and of qkptuples hand on to the engine.\<close>

lemma ptuples_main_valid:
  assumes "(argc c = 4 \<or> argc c = 5)" "3 \<le> tuple_size c" "1 \<le> user_b_min c"
    "user_b_min c \<le> user_b_max c" "user_b_max c \<le> MAXB"
  shows "ptuples_main c =
         (case BuildNTuples [] (argc c = 5 \<and> argv1_is_p c) (user_b_min c) (user_b_max c)
                 (tuple_size c) of
            None \<Rightarrow> None
          | Some (Inl e) \<Rightarrow> Some (Inl e)
          | Some (Inr (out, tuples)) \<Rightarrow> Some (Inr (map Text out @ print_tuples tuples, 0)))"
  using assms by (auto simp: ptuples_main_def Let_def)

lemma ptuples_main_invalid:
  assumes "\<not> ((argc c = 4 \<or> argc c = 5) \<and> 3 \<le> tuple_size c \<and> 1 \<le> user_b_min c \<and>
              user_b_min c \<le> user_b_max c \<and> user_b_max c \<le> MAXB)"
  shows "\<exists>s. ptuples_main c = Some (Inr ([Text s], 1))"
  using assms by (auto simp: ptuples_main_def Let_def)

lemma qkptuples_main_valid:
  assumes "(argc c = 4 \<or> argc c = 5)" "3 \<le> tuple_size c" "1 \<le> user_b_min c"
    "user_b_min c \<le> user_b_max c"
  shows "qkptuples_main c =
         (case qk_BuildNTuples [] (argc c = 5 \<and> argv1_is_p c) (user_b_min c) (user_b_max c)
                 (tuple_size c) of
            None \<Rightarrow> None
          | Some (Inl e) \<Rightarrow> Some (Inl e)
          | Some (Inr (out, tuples)) \<Rightarrow> Some (Inr (map Text out @ print_tuples tuples, 0)))"
  using assms by (auto simp: qkptuples_main_def Let_def)

lemma qkptuples_main_invalid:
  assumes "\<not> ((argc c = 4 \<or> argc c = 5) \<and> 3 \<le> tuple_size c \<and> 1 \<le> user_b_min c \<and>
              user_b_min c \<le> user_b_max c)"
  shows "\<exists>s. qkptuples_main c = Some (Inr ([Text s], 1))"
  using assms by (auto simp: qkptuples_main_def Let_def)








subsection \<open>The known triples up to 25\<close>

lemma is_triple_entry_enumerated:
  assumes "is_triple_entry 1 hi e"
  shows "e \<in> set (triples_upto hi)"
proof -
  from assms obtain x y where e: "tentry_a e = [x, y]" "1 \<le> x" "x \<le> y"
    "x * x + y * y = tentry_b e * tentry_b e" "1 \<le> tentry_b e" "tentry_b e \<le> hi"
    by (auto simp: is_triple_entry_def)
  let ?b = "tentry_b e"
  have "y \<le> ?b"
  proof (rule ccontr)
    assume "\<not> y \<le> ?b"
    with e(5) have "?b * ?b < y * y" by (intro mult_strict_mono') simp_all
    moreover have "0 \<le> x * x" by simp
    ultimately show False using e(4) by linarith
  qed
  have "e = \<lparr>tentry_a = [x, y], tentry_b = ?b\<rparr>"
    using e(1) by (cases e) simp
  moreover have "\<lparr>tentry_a = [x, y], tentry_b = ?b\<rparr> \<in> set (triples_upto hi)"
    unfolding triples_upto_def using e \<open>y \<le> ?b\<close>
    by (auto intro!: bexI [of _ ?b] bexI [of _ y] bexI [of _ x])
  ultimately show ?thesis by simp
qed

lemma triples_upto_25:
  "triples_upto 25 =
     [\<lparr>tentry_a = [3, 4], tentry_b = 5\<rparr>, \<lparr>tentry_a = [6, 8], tentry_b = 10\<rparr>,
      \<lparr>tentry_a = [5, 12], tentry_b = 13\<rparr>, \<lparr>tentry_a = [9, 12], tentry_b = 15\<rparr>,
      \<lparr>tentry_a = [8, 15], tentry_b = 17\<rparr>, \<lparr>tentry_a = [12, 16], tentry_b = 20\<rparr>,
      \<lparr>tentry_a = [15, 20], tentry_b = 25\<rparr>, \<lparr>tentry_a = [7, 24], tentry_b = 25\<rparr>]"
  by code_simp

text \<open>
  C2.  In non-primitive mode with tuple size 3, \<open>b_min = 1\<close> and \<open>b_max = 25\<close> the exhaustive
  engine returns the eight triples below, in canonical order, and these are exactly the
  Pythagorean triples \<open>(x, y, b)\<close> with \<open>1 \<le> x \<le> y\<close> and \<open>b\<close> in \<open>[1, 25]\<close>.
\<close>

theorem exhaustive_triples_upto_25:
  "BuildNTuples [] False 1 25 3 =
     Some (Inr ([],
       [\<lparr>tentry_a = [3, 4], tentry_b = 5\<rparr>, \<lparr>tentry_a = [6, 8], tentry_b = 10\<rparr>,
        \<lparr>tentry_a = [5, 12], tentry_b = 13\<rparr>, \<lparr>tentry_a = [9, 12], tentry_b = 15\<rparr>,
        \<lparr>tentry_a = [8, 15], tentry_b = 17\<rparr>, \<lparr>tentry_a = [12, 16], tentry_b = 20\<rparr>,
        \<lparr>tentry_a = [7, 24], tentry_b = 25\<rparr>, \<lparr>tentry_a = [15, 20], tentry_b = 25\<rparr>])) \<and>
   (\<forall>e. is_triple_entry 1 25 e \<longleftrightarrow>
      e \<in> set [\<lparr>tentry_a = [3, 4], tentry_b = 5\<rparr>, \<lparr>tentry_a = [6, 8], tentry_b = 10\<rparr>,
        \<lparr>tentry_a = [5, 12], tentry_b = 13\<rparr>, \<lparr>tentry_a = [9, 12], tentry_b = 15\<rparr>,
        \<lparr>tentry_a = [8, 15], tentry_b = 17\<rparr>, \<lparr>tentry_a = [12, 16], tentry_b = 20\<rparr>,
        \<lparr>tentry_a = [7, 24], tentry_b = 25\<rparr>, \<lparr>tentry_a = [15, 20], tentry_b = 25\<rparr>])"
proof (intro conjI allI iffI)
  show "BuildNTuples [] False 1 25 3 =
     Some (Inr ([],
       [\<lparr>tentry_a = [3, 4], tentry_b = 5\<rparr>, \<lparr>tentry_a = [6, 8], tentry_b = 10\<rparr>,
        \<lparr>tentry_a = [5, 12], tentry_b = 13\<rparr>, \<lparr>tentry_a = [9, 12], tentry_b = 15\<rparr>,
        \<lparr>tentry_a = [8, 15], tentry_b = 17\<rparr>, \<lparr>tentry_a = [12, 16], tentry_b = 20\<rparr>,
        \<lparr>tentry_a = [7, 24], tentry_b = 25\<rparr>, \<lparr>tentry_a = [15, 20], tentry_b = 25\<rparr>]))"
    by code_simp
next
  fix e assume "is_triple_entry 1 25 e"
  then have "e \<in> set (triples_upto 25)"
    by (rule is_triple_entry_enumerated)
  then show "e \<in> set [\<lparr>tentry_a = [3, 4], tentry_b = 5\<rparr>, \<lparr>tentry_a = [6, 8], tentry_b = 10\<rparr>,
        \<lparr>tentry_a = [5, 12], tentry_b = 13\<rparr>, \<lparr>tentry_a = [9, 12], tentry_b = 15\<rparr>,
        \<lparr>tentry_a = [8, 15], tentry_b = 17\<rparr>, \<lparr>tentry_a = [12, 16], tentry_b = 20\<rparr>,
        \<lparr>tentry_a = [7, 24], tentry_b = 25\<rparr>, \<lparr>tentry_a = [15, 20], tentry_b = 25\<rparr>]"
    unfolding triples_upto_25 by auto
next
  fix e assume "e \<in> set [\<lparr>tentry_a = [3, 4], tentry_b = 5\<rparr>, \<lparr>tentry_a = [6, 8], tentry_b = 10\<rparr>,
        \<lparr>tentry_a = [5, 12], tentry_b = 13\<rparr>, \<lparr>tentry_a = [9, 12], tentry_b = 15\<rparr>,
        \<lparr>tentry_a = [8, 15], tentry_b = 17\<rparr>, \<lparr>tentry_a = [12, 16], tentry_b = 20\<rparr>,
        \<lparr>tentry_a = [7, 24], tentry_b = 25\<rparr>, \<lparr>tentry_a = [15, 20], tentry_b = 25\<rparr>]"
  then show "is_triple_entry 1 25 e"
    by (auto simp: is_triple_entry_def)
qed

text \<open>
  C3.  For every tuple size that \<^verbatim>\<open>main\<close> accepts and all bounds the approximate engine
  returns a table that does not hold \<open>(1, 2, 2, 3)\<close>: tables for size 3 hold two a-values,
  and for larger sizes every b-value is at least 5.  The exhaustive engine with tuple size
  4, \<open>b_min = 1\<close> and \<open>b_max = 3\<close> returns exactly this tuple.
\<close>

theorem approximate_engine_gap:
  "(3 \<le> N \<longrightarrow>
      (\<exists>tuples. qk_BuildNTuples [] DoOnlyPrimitives b_min b_max N = Some (Inr ([], tuples)) \<and>
         \<lparr>tentry_a = [1, 2, 2], tentry_b = 3\<rparr> \<notin> set tuples)) \<and>
   BuildNTuples [] False 1 3 4 = Some (Inr ([], [\<lparr>tentry_a = [1, 2, 2], tentry_b = 3\<rparr>]))"
proof (intro conjI impI)
  assume N: "3 \<le> N"
  from qk_BuildNTuples_result [OF N, of DoOnlyPrimitives b_min b_max]
  obtain tuples where run: "qk_BuildNTuples [] DoOnlyPrimitives b_min b_max N = Some (Inr ([], tuples))"
    and ok: "table_ok (if N = 3 then b_min else max 5 b_min) b_max (nat (N - 1)) tuples"
    by blast
  have "\<lparr>tentry_a = [1, 2, 2], tentry_b = 3\<rparr> \<notin> set tuples"
  proof
    assume "\<lparr>tentry_a = [1, 2, 2], tentry_b = 3\<rparr> \<in> set tuples"
    with ok have "entry_sound (if N = 3 then b_min else max 5 b_min) b_max
        \<lparr>tentry_a = [1, 2, 2], tentry_b = 3\<rparr>"
      and "entry_canonical (nat (N - 1)) \<lparr>tentry_a = [1, 2, 2], tentry_b = 3\<rparr>"
      by (auto simp: table_ok_iff)
    then show False
      by (auto simp: entry_sound_def entry_canonical_def split: if_splits)
  qed
  with run show "\<exists>tuples. qk_BuildNTuples [] DoOnlyPrimitives b_min b_max N =
      Some (Inr ([], tuples)) \<and> \<lparr>tentry_a = [1, 2, 2], tentry_b = 3\<rparr> \<notin> set tuples"
    by blast
next
  show "BuildNTuples [] False 1 3 4 = Some (Inr ([], [\<lparr>tentry_a = [1, 2, 2], tentry_b = 3\<rparr>]))"
    by code_simp
qed

theorem approximate_engine_gap_witness:
  "qk_BuildNTuples [] False 1 17 4 = Some (Inr ([], [\<lparr>tentry_a = [3, 4, 12], tentry_b = 13\<rparr>])) \<and>
   \<lparr>tentry_a = [1, 2, 2], tentry_b = 3\<rparr> \<notin> set [\<lparr>tentry_a = [3, 4, 12], tentry_b = 13\<rparr>] \<and>
   BuildNTuples [] False 1 3 4 = Some (Inr ([], [\<lparr>tentry_a = [1, 2, 2], tentry_b = 3\<rparr>]))"
proof -
  have run: "qk_BuildNTuples [] False 1 17 4 =
      Some (Inr ([], [\<lparr>tentry_a = [3, 4, 12], tentry_b = 13\<rparr>]))"
    by code_simp
  from approximate_engine_gap [of 4 False 1 17] run show ?thesis by simp
qed

text \<open>
  The command line \<^verbatim>\<open>ptuples 3 1 1\<close> passes every check of \<^verbatim>\<open>main\<close>.  With \<open>b_max = 1\<close>
  the table of squares has no element, and the first pass of the enumeration reads its
  element 0, outside the table: with checked reads the run stops at this read.
\<close>

theorem ptuples_b_max_1_reads_out_of_bounds:
  "ptuples_main \<lparr>argc = 4, argv1_is_p = False, tuple_size = 3, user_b_min = 1, user_b_max = 1\<rparr> =
     Some (Inl OutOfBounds)"
  by code_simp

text \<open>
  Every command line that fails a check of \<^verbatim>\<open>main\<close> (argument count, tuple size below 3,
  \<open>b_min\<close> below 1, \<open>b_min\<close> above \<open>b_max\<close>, and for ptuples \<open>b_max\<close> above \<open>MAXB\<close>) makes
  the program print one diagnostic text and no tuple line, and return 1.
\<close>

theorem invalid_command_line:
  "(\<not> ((argc c = 4 \<or> argc c = 5) \<and> 3 \<le> tuple_size c \<and> 1 \<le> user_b_min c \<and>
        user_b_min c \<le> user_b_max c \<and> user_b_max c \<le> MAXB) \<longrightarrow>
      (\<exists>s. ptuples_main c = Some (Inr ([Text s], 1)))) \<and>
   (\<not> ((argc c = 4 \<or> argc c = 5) \<and> 3 \<le> tuple_size c \<and> 1 \<le> user_b_min c \<and>
        user_b_min c \<le> user_b_max c) \<longrightarrow>
      (\<exists>s. qkptuples_main c = Some (Inr ([Text s], 1))))"
  using ptuples_main_invalid [of c] qkptuples_main_invalid [of c] by blast

theorem invalid_command_line_witness:
  "ptuples_main \<lparr>argc = 4, argv1_is_p = False, tuple_size = 3, user_b_min = 1,
                  user_b_max = 4294967295\<rparr> =
     Some (Inr ([Text ''b_max must be <= 4294967294.  Aborting.''], 1)) \<and>
   qkptuples_main \<lparr>argc = 4, argv1_is_p = False, tuple_size = 2, user_b_min = 1,
                    user_b_max = 10\<rparr> =
     Some (Inr ([Text ''tuple size must be >= 3.  Aborting.''], 1))"
proof -
  let ?c1 = "\<lparr>argc = 4, argv1_is_p = False, tuple_size = 3, user_b_min = 1,
              user_b_max = 4294967295\<rparr>"
  let ?c2 = "\<lparr>argc = 4, argv1_is_p = False, tuple_size = 2, user_b_min = 1, user_b_max = 10\<rparr>"
  from invalid_command_line [of ?c1] have "\<exists>s. ptuples_main ?c1 = Some (Inr ([Text s], 1))"
    by (simp add: MAXB_def)
  moreover from invalid_command_line [of ?c2] have "\<exists>s. qkptuples_main ?c2 = Some (Inr ([Text s], 1))"
    by simp
  ultimately show ?thesis
    by (auto simp: ptuples_main_def qkptuples_main_def MAXB_def)
qed

text \<open>
  On every command line that passes the checks of \<^verbatim>\<open>main\<close>, qkptuples returns 0 and
  prints tuple lines only.
\<close>

theorem qkptuples_valid_exit_0:
  assumes "argc c = 4 \<or> argc c = 5" "3 \<le> tuple_size c" "1 \<le> user_b_min c"
    "user_b_min c \<le> user_b_max c"
  shows "\<exists>tuples. qkptuples_main c = Some (Inr (print_tuples tuples, 0))"
proof -
  from qk_BuildNTuples_result [OF assms(2), of "argc c = 5 \<and> argv1_is_p c" "user_b_min c"
      "user_b_max c"]
  obtain tuples where "qk_BuildNTuples [] (argc c = 5 \<and> argv1_is_p c) (user_b_min c)
      (user_b_max c) (tuple_size c) = Some (Inr ([], tuples))"
    by blast
  then have "qkptuples_main c = Some (Inr (print_tuples tuples, 0))"
    unfolding qkptuples_main_valid [OF assms] by simp
  then show ?thesis by blast
qed

theorem qkptuples_valid_exit_0_witness:
  "qkptuples_main \<lparr>argc = 5, argv1_is_p = True, tuple_size = 3, user_b_min = 1, user_b_max = 10\<rparr> =
     Some (Inr (print_tuples [\<lparr>tentry_a = [3, 4], tentry_b = 5\<rparr>], 0))"
proof -
  let ?c = "\<lparr>argc = 5, argv1_is_p = True, tuple_size = 3, user_b_min = 1, user_b_max = 10\<rparr>"
  have "\<exists>tuples. qkptuples_main ?c = Some (Inr (print_tuples tuples, 0))"
    by (rule qkptuples_valid_exit_0) simp_all
  moreover have "qkptuples_main ?c = Some (Inr ([TupleLine [3, 4] 5], 0))"
    by code_simp
  ultimately show ?thesis by (simp add: print_tuples_def)
qed

subsection \<open>The enumeration runs without a failing read and ends\<close>

lemma in_range_nth:
  "list_all (\<lambda>d. 0 \<le> d \<and> d < numsqrs) ds \<Longrightarrow> j < length ds \<Longrightarrow> 0 \<le> ds ! j \<and> ds ! j < (numsqrs :: int)"
  by (simp add: list_all_length)

lemma rd_sqrs_in_range:
  "0 \<le> d \<Longrightarrow> d < numsqrs \<Longrightarrow> \<exists>sq. rd (sqrs_table (nat numsqrs)) d = Inr sq"
  by (simp add: rd_def)

lemma fill_subtotals_returns:
  assumes "sqrs = sqrs_table (nat numsqrs)"
    and "length (sqrindextumbler st) = n" "length (subtotaltumbler st) = n"
    and "0 \<le> tumbler_i st" "lasttumbler < int n"
    and "list_all (\<lambda>d. 0 \<le> d \<and> d < numsqrs) (sqrindextumbler st)"
  shows "\<exists>st'. fill_subtotals sqrs lasttumbler st = Inr st' \<and>
           sqrindextumbler st' = sqrindextumbler st \<and> length (subtotaltumbler st') = n \<and>
           tumbler_i st' = max (tumbler_i st) lasttumbler"
  using assms
proof (induction sqrs lasttumbler st rule: fill_subtotals.induct)
  case (1 sqrs lasttumbler st)
  let ?i = "tumbler_i st"
  note unfold = fill_subtotals.simps [of sqrs lasttumbler st]
  show ?case
  proof (cases "?i < lasttumbler")
    case False
    then show ?thesis using "1.prems"(3) by (simp add: unfold)
  next
    case True
    with "1.prems" have i: "0 \<le> ?i" "?i < int (length (sqrindextumbler st))" by simp_all
    then have rd1: "rd (sqrindextumbler st) ?i = Inr (sqrindextumbler st ! nat ?i)"
      by (rule rd_in_range)
    let ?d = "sqrindextumbler st ! nat ?i"
    from in_range_nth [OF "1.prems"(6), of "nat ?i"] i have d: "0 \<le> ?d" "?d < numsqrs"
      by simp_all
    then obtain sq where rd2: "rd sqrs ?d = Inr sq"
      using rd_sqrs_in_range "1.prems"(1) by blast
    show ?thesis
    proof (cases "?i > 0")
      case pos: True
      with i "1.prems"(2,3) have rd3: "rd (subtotaltumbler st) (?i - 1) =
          Inr (subtotaltumbler st ! nat (?i - 1))"
        by (intro rd_in_range) simp_all
      let ?st1 = "st\<lparr>subtotaltumbler := (subtotaltumbler st)
          [nat ?i := uint sq + subtotaltumbler st ! nat (?i - 1)], tumbler_i := ?i + 1\<rparr>"
      have "\<exists>st'. fill_subtotals sqrs lasttumbler ?st1 = Inr st' \<and>
           sqrindextumbler st' = sqrindextumbler ?st1 \<and> length (subtotaltumbler st') = n \<and>
           tumbler_i st' = max (tumbler_i ?st1) lasttumbler"
        using "1.prems" by (intro "1.IH"(1) [OF True rd1 rd2 pos rd3]) simp_all
      moreover have "fill_subtotals sqrs lasttumbler st = fill_subtotals sqrs lasttumbler ?st1"
        by (subst unfold) (use True rd1 rd2 rd3 pos in simp)
      ultimately show ?thesis using True by auto
    next
      case nonpos: False
      let ?st1 = "st\<lparr>subtotaltumbler := (subtotaltumbler st)[nat ?i := uint sq],
          tumbler_i := ?i + 1\<rparr>"
      have "\<exists>st'. fill_subtotals sqrs lasttumbler ?st1 = Inr st' \<and>
           sqrindextumbler st' = sqrindextumbler ?st1 \<and> length (subtotaltumbler st') = n \<and>
           tumbler_i st' = max (tumbler_i ?st1) lasttumbler"
        using "1.prems" by (intro "1.IH"(2) [OF True rd1 rd2 nonpos]) simp_all
      moreover have "fill_subtotals sqrs lasttumbler st = fill_subtotals sqrs lasttumbler ?st1"
        by (subst unfold) (use True rd1 rd2 nonpos in simp)
      ultimately show ?thesis using True by auto
    qed
  qed
qed

lemma skip_sqrindex_in_range:
  assumes "1 \<le> numsqrs" "numsqrs \<le> MAXB - 1"
  shows "0 \<le> to_long (skip_sqrindex numsqrs tempZ) \<and> to_long (skip_sqrindex numsqrs tempZ) < numsqrs"
proof -
  define u where "u = mpz_get_ui (mpz_sqrt tempZ)"
  define u1 where "u1 = (if u > 0 then u - 1 else u)"
  have "0 \<le> u" by (simp add: u_def mpz_get_ui_def)
  then have u1: "0 \<le> u1" by (simp add: u1_def)
  have skip: "skip_sqrindex numsqrs tempZ = (if u1 \<ge> numsqrs then to_ulong (numsqrs - 1) else u1)"
    by (simp add: skip_sqrindex_def Let_def u1_def u_def)
  from assms have top: "to_ulong (numsqrs - 1) = numsqrs - 1" "numsqrs < 2 ^ 63"
    by (simp_all add: to_ulong_def MAXB_def)
  have range: "0 \<le> skip_sqrindex numsqrs tempZ" "skip_sqrindex numsqrs tempZ < numsqrs"
    using u1 assms(1) top(1) by (auto simp: skip)
  with top(2) have "to_long (skip_sqrindex numsqrs tempZ) = skip_sqrindex numsqrs tempZ"
    by (simp add: to_long_def)
  with range show ?thesis by simp
qed

lemma last_subtotal_returns:
  assumes "sqrs = sqrs_table (nat numsqrs)" "1 \<le> numsqrs" "numsqrs \<le> MAXB - 1"
    and "length (sqrindextumbler st) = n" "length (subtotaltumbler st) = n"
    and "1 \<le> tumbler_i st" "tumbler_i st < int n"
    and "list_all (\<lambda>d. 0 \<le> d \<and> d < numsqrs) (sqrindextumbler st)"
  shows "\<exists>st'. last_subtotal sqrs numsqrs b_min_sqr st = Inr st'"
proof -
  let ?i = "tumbler_i st"
  let ?d = "sqrindextumbler st ! nat ?i"
  let ?prev = "subtotaltumbler st ! nat (?i - 1)"
  from assms have rd1: "rd (subtotaltumbler st) (?i - 1) = Inr ?prev"
    by (intro rd_in_range) simp_all
  from assms have rd2: "rd (sqrindextumbler st) ?i = Inr ?d"
    by (intro rd_in_range) simp_all
  from in_range_nth [OF assms(8), of "nat ?i"] assms(4,6,7) have "0 \<le> ?d" "?d < numsqrs"
    by simp_all
  then obtain sq where rd3: "rd sqrs ?d = Inr sq"
    using rd_sqrs_in_range assms(1) by blast
  let ?d' = "to_long (skip_sqrindex numsqrs (b_min_sqr - ?prev))"
  from skip_sqrindex_in_range [OF assms(2,3)] have "0 \<le> ?d'" "?d' < numsqrs" by simp_all
  then obtain sq' where rd4: "rd sqrs ?d' = Inr sq'"
    using rd_sqrs_in_range assms(1) by blast
  show ?thesis
    by (simp add: last_subtotal_def Let_def rd1 rd2 rd3 rd4)
qed

text \<open>
  The carry, started at a tumbler whose square index may have reached \<open>numsqrs\<close>: it
  returns with all square indices inside the table again; where it has moved down, the
  tumbler it stops at has advanced.
\<close>

lemma carry_returns:
  assumes "1 \<le> numsqrs" "numsqrs \<le> MAXB - 1"
    and "- 1 \<le> tumbler_i st" "tumbler_i st < int (length (sqrindextumbler st))"
    and "length (subtotaltumbler st) = length (sqrindextumbler st)"
    and "\<forall>j < length (sqrindextumbler st). 0 \<le> sqrindextumbler st ! j \<and>
           (if int j = tumbler_i st then sqrindextumbler st ! j \<le> numsqrs
            else sqrindextumbler st ! j < numsqrs)"
  shows "\<exists>st'. carry numsqrs b_max_sqr st = Inr st' \<and> - 1 \<le> tumbler_i st' \<and>
           list_all (\<lambda>d. 0 \<le> d \<and> d < numsqrs) (sqrindextumbler st') \<and>
           (if tumbler_i st' = tumbler_i st then sqrindextumbler st' = sqrindextumbler st
            else 0 \<le> tumbler_i st' \<longrightarrow>
                 sqrindextumbler st ! nat (tumbler_i st') < sqrindextumbler st' ! nat (tumbler_i st'))"
  using assms
proof (induction numsqrs b_max_sqr st rule: carry.induct)
  case (1 numsqrs b_max_sqr st)
  let ?i = "tumbler_i st"
  let ?ds = "sqrindextumbler st"
  note unfold = carry.simps [of numsqrs b_max_sqr st]
  note range = "1.prems"(6)
  have big: "numsqrs < 2 ^ 63" using "1.prems"(2) by (simp add: MAXB_def)
  show ?case
  proof (cases "?i \<ge> 0")
    case False
    then have "carry numsqrs b_max_sqr st = Inr st" by (simp add: unfold)
    moreover from False range have "list_all (\<lambda>d. 0 \<le> d \<and> d < numsqrs) ?ds"
      by (simp add: list_all_length)
    ultimately show ?thesis using "1.prems"(3) by simp
  next
    case True
    with "1.prems"(4) have rd1: "rd ?ds ?i = Inr (?ds ! nat ?i)"
      by (intro rd_in_range) simp_all
    let ?d = "?ds ! nat ?i"
    from range True "1.prems"(4) have d: "0 \<le> ?d" "?d \<le> numsqrs"
      by (metis int_nat_eq nat_less_iff)+
    with big have ulong: "to_ulong ?d = ?d" by (simp add: to_ulong_def)
    show ?thesis
    proof (cases "?d \<ge> numsqrs")
      case False
      then have "carry numsqrs b_max_sqr st = Inr st"
        by (subst unfold) (use True rd1 ulong in simp)
      moreover have "list_all (\<lambda>d. 0 \<le> d \<and> d < numsqrs) ?ds"
        unfolding list_all_length
      proof (intro allI impI)
        fix j assume "j < length ?ds"
        show "0 \<le> ?ds ! j \<and> ?ds ! j < numsqrs"
        proof (cases "int j = ?i")
          case True
          then have "j = nat ?i" by simp
          with range False \<open>j < length ?ds\<close> d show ?thesis by simp
        next
          case other: False
          with range \<open>j < length ?ds\<close> show ?thesis by simp
        qed
      qed
      ultimately show ?thesis using "1.prems"(3) by simp
    next
      case over: True
      then have over': "numsqrs \<le> to_ulong ?d" using ulong by simp
      define st1 where "st1 = st\<lparr>sqrindextumbler := ?ds[nat ?i := 0], tumbler_i := ?i - 1\<rparr>"
      have ds1: "sqrindextumbler st1 = ?ds[nat ?i := 0]" "tumbler_i st1 = ?i - 1"
        "subtotaltumbler st1 = subtotaltumbler st"
        by (simp_all add: st1_def)
      have range1: "0 \<le> sqrindextumbler st1 ! j \<and> sqrindextumbler st1 ! j < numsqrs"
        if "j < length ?ds" for j
      proof (cases "j = nat ?i")
        case True
        with that "1.prems"(1) show ?thesis by (simp add: ds1)
      next
        case False
        with True have "int j \<noteq> ?i" by auto
        with range that False show ?thesis by (simp add: ds1)
      qed
      show ?thesis
      proof (cases "?i - 1 \<ge> 0")
        case False
        have "carry numsqrs b_max_sqr st = carry numsqrs b_max_sqr st1"
          by (subst unfold) (use True rd1 over' False in \<open>simp add: Let_def st1_def\<close>)
        also have "\<dots> = Inr st1"
          by (subst carry.simps) (use False in \<open>simp add: ds1\<close>)
        finally have "carry numsqrs b_max_sqr st = Inr st1" .
        moreover have "list_all (\<lambda>d. 0 \<le> d \<and> d < numsqrs) (sqrindextumbler st1)"
          using range1 by (simp add: list_all_length ds1)
        ultimately show ?thesis using False True by (simp add: ds1)
      next
        case more: True
        let ?k = "nat (?i - 1)"
        have k: "?k < length ?ds" "?k \<noteq> nat ?i" "int ?k = ?i - 1"
          using more "1.prems"(4) by simp_all
        have rd2: "rd (subtotaltumbler st1) (?i - 1) = Inr (subtotaltumbler st ! ?k)"
          using more "1.prems"(4,5) by (simp add: ds1 rd_in_range)
        have rd3: "rd (sqrindextumbler st1) (?i - 1) = Inr (?ds ! ?k)"
          using more "1.prems"(4) k by (simp add: ds1 rd_in_range)
        let ?subtotal = "subtotaltumbler st ! ?k"
        let ?new = "if mpz_cmp ?subtotal b_max_sqr > 0 then to_long numsqrs else ?ds ! ?k + 1"
        define st2 where "st2 = st1\<lparr>sqrindextumbler := (sqrindextumbler st1)[?k := ?new]\<rparr>"
        have ds2: "sqrindextumbler st2 = ?ds[nat ?i := 0, ?k := ?new]" "tumbler_i st2 = ?i - 1"
          "subtotaltumbler st2 = subtotaltumbler st"
          by (simp_all add: st2_def ds1)
        have old: "0 \<le> ?ds ! ?k" "?ds ! ?k < numsqrs"
          using range k by (auto split: if_splits)
        have long: "to_long numsqrs = numsqrs"
          using big "1.prems"(1) by (simp add: to_long_def)
        have new: "?ds ! ?k < ?new" "?new \<le> numsqrs" "0 \<le> ?new"
          using old long by auto
        have step: "carry numsqrs b_max_sqr st = carry numsqrs b_max_sqr st2"
          by (subst unfold)
            (use True rd1 over' more rd2 rd3 in \<open>simp add: Let_def st1_def [symmetric] st2_def\<close>)
        have "\<exists>st'. carry numsqrs b_max_sqr st2 = Inr st' \<and> - 1 \<le> tumbler_i st' \<and>
           list_all (\<lambda>d. 0 \<le> d \<and> d < numsqrs) (sqrindextumbler st') \<and>
           (if tumbler_i st' = tumbler_i st2 then sqrindextumbler st' = sqrindextumbler st2
            else 0 \<le> tumbler_i st' \<longrightarrow>
                 sqrindextumbler st2 ! nat (tumbler_i st') < sqrindextumbler st' ! nat (tumbler_i st'))"
          unfolding st2_def
        proof (rule "1.IH"(1) [OF True rd1 over' refl st1_def more rd2 rd3 "1.prems"(1,2)],
            fold st2_def)
          show "- 1 \<le> tumbler_i st2" using more by (simp add: ds2)
          show "tumbler_i st2 < int (length (sqrindextumbler st2))"
            using "1.prems"(4) by (simp add: ds2)
          show "length (subtotaltumbler st2) = length (sqrindextumbler st2)"
            using "1.prems"(5) by (simp add: ds2)
          show "\<forall>j < length (sqrindextumbler st2). 0 \<le> sqrindextumbler st2 ! j \<and>
              (if int j = tumbler_i st2 then sqrindextumbler st2 ! j \<le> numsqrs
               else sqrindextumbler st2 ! j < numsqrs)"
          proof (intro allI impI)
            fix j assume j: "j < length (sqrindextumbler st2)"
            show "0 \<le> sqrindextumbler st2 ! j \<and>
              (if int j = tumbler_i st2 then sqrindextumbler st2 ! j \<le> numsqrs
               else sqrindextumbler st2 ! j < numsqrs)"
            proof (cases "j = ?k")
              case True
              with new k show ?thesis by (simp add: ds2)
            next
              case False
              with k(3) have "int j \<noteq> ?i - 1" by linarith
              moreover have "sqrindextumbler st2 ! j = sqrindextumbler st1 ! j"
                using False by (simp add: ds2 ds1)
              ultimately show ?thesis using range1 [of j] j by (simp add: ds2)
            qed
          qed
        qed
        then obtain st' where rec: "carry numsqrs b_max_sqr st2 = Inr st'"
          and i': "- 1 \<le> tumbler_i st'"
          and ok: "list_all (\<lambda>d. 0 \<le> d \<and> d < numsqrs) (sqrindextumbler st')"
          and adv: "if tumbler_i st' = tumbler_i st2 then sqrindextumbler st' = sqrindextumbler st2
            else 0 \<le> tumbler_i st' \<longrightarrow>
                 sqrindextumbler st2 ! nat (tumbler_i st') < sqrindextumbler st' ! nat (tumbler_i st')"
          by blast
        from carry_facts [OF rec] have le: "tumbler_i st' \<le> ?i - 1"
          by (simp add: ds2)
        have "sqrindextumbler st ! nat (tumbler_i st') < sqrindextumbler st' ! nat (tumbler_i st')"
          if pos: "0 \<le> tumbler_i st'"
        proof (cases "tumbler_i st' = ?i - 1")
          case True
          with adv have "sqrindextumbler st' = sqrindextumbler st2" by (simp add: ds2)
          with True new(1) k show ?thesis by (simp add: ds2)
        next
          case False
          with adv pos have "sqrindextumbler st2 ! nat (tumbler_i st') <
              sqrindextumbler st' ! nat (tumbler_i st')" by (simp add: ds2)
          moreover from False le pos have "nat (tumbler_i st') \<noteq> ?k" "nat (tumbler_i st') \<noteq> nat ?i"
            by linarith+
          ultimately show ?thesis by (simp add: ds2)
        qed
        with rec i' ok le step show ?thesis by auto
      qed
    qed
  qed
qed

lemma test_and_advance_returns:
  assumes bounds: "1 \<le> numsqrs" "numsqrs \<le> MAXB - 1"
    and len: "length (sqrindextumbler st) = n" "length (subtotaltumbler st) = n"
    and i: "tumbler_i st + 1 = int n" "0 < n"
    and range: "list_all (\<lambda>d. 0 \<le> d \<and> d < numsqrs) (sqrindextumbler st)"
  shows "\<exists>st'. test_and_advance numsqrs b_min_sqr b_max_sqr st = Inr st' \<and>
           tumbler_ready numsqrs n st' \<and> (0 \<le> tumbler_i st' \<longrightarrow> ahead st' st)"
proof -
  let ?i = "tumbler_i st"
  let ?ds = "sqrindextumbler st"
  let ?d = "?ds ! nat ?i"
  let ?subtotal = "subtotaltumbler st ! nat ?i"
  have i': "0 \<le> ?i" "nat ?i < n" "?i < int n" using i by simp_all
  from i' len have rd1: "rd (subtotaltumbler st) ?i = Inr ?subtotal"
    by (intro rd_in_range) simp_all
  from i' len have rd2: "rd ?ds ?i = Inr ?d"
    by (intro rd_in_range) simp_all
  have big: "to_long numsqrs = numsqrs"
    using bounds by (simp add: to_long_def MAXB_def)
  from in_range_nth [OF range, of "nat ?i"] i' len have d: "0 \<le> ?d" "?d < numsqrs"
    by simp_all
  define new where "new = (if mpz_cmp ?subtotal b_max_sqr > 0 then to_long numsqrs else ?d + 1)"
  have new: "?d < new" "new \<le> numsqrs" "0 \<le> new"
    using d big by (auto simp: new_def)
  define st1 where "st1 =
     (if \<not> (mpz_cmp ?subtotal b_min_sqr < 0 \<or> mpz_cmp ?subtotal b_max_sqr > 0) \<and>
         mpz_perfect_square_p ?subtotal
      then st\<lparr>tmp_table := SaveToTuple (tmp_table st) ?ds ?subtotal\<rparr> else st)"
  define st2 where "st2 = st1\<lparr>sqrindextumbler := (sqrindextumbler st1)[nat ?i := new]\<rparr>"
  have st1: "sqrindextumbler st1 = ?ds" "subtotaltumbler st1 = subtotaltumbler st"
    "tumbler_i st1 = ?i"
    by (simp_all add: st1_def)
  have st2: "sqrindextumbler st2 = ?ds[nat ?i := new]" "subtotaltumbler st2 = subtotaltumbler st"
    "tumbler_i st2 = ?i"
    by (simp_all add: st2_def st1)
  have run: "test_and_advance numsqrs b_min_sqr b_max_sqr st = carry numsqrs b_max_sqr st2"
    unfolding test_and_advance_def Let_def rd1 rd2 st2_def st1_def new_def by simp
  have "\<exists>st'. carry numsqrs b_max_sqr st2 = Inr st' \<and> - 1 \<le> tumbler_i st' \<and>
           list_all (\<lambda>d. 0 \<le> d \<and> d < numsqrs) (sqrindextumbler st') \<and>
           (if tumbler_i st' = tumbler_i st2 then sqrindextumbler st' = sqrindextumbler st2
            else 0 \<le> tumbler_i st' \<longrightarrow>
                 sqrindextumbler st2 ! nat (tumbler_i st') < sqrindextumbler st' ! nat (tumbler_i st'))"
  proof (rule carry_returns [OF bounds])
    show "- 1 \<le> tumbler_i st2" using i' by (simp add: st2)
    show "tumbler_i st2 < int (length (sqrindextumbler st2))" using i' len by (simp add: st2)
    show "length (subtotaltumbler st2) = length (sqrindextumbler st2)" using len by (simp add: st2)
    show "\<forall>j < length (sqrindextumbler st2). 0 \<le> sqrindextumbler st2 ! j \<and>
           (if int j = tumbler_i st2 then sqrindextumbler st2 ! j \<le> numsqrs
            else sqrindextumbler st2 ! j < numsqrs)"
    proof (intro allI impI)
      fix j assume j: "j < length (sqrindextumbler st2)"
      then have j': "j < length ?ds" by (simp add: st2)
      show "0 \<le> sqrindextumbler st2 ! j \<and>
           (if int j = tumbler_i st2 then sqrindextumbler st2 ! j \<le> numsqrs
            else sqrindextumbler st2 ! j < numsqrs)"
      proof (cases "j = nat ?i")
        case True
        with new j' i' show ?thesis by (simp add: st2)
      next
        case False
        with i' have "int j \<noteq> ?i" by auto
        with False in_range_nth [OF range j'] show ?thesis by (simp add: st2)
      qed
    qed
  qed
  then obtain st' where rec: "carry numsqrs b_max_sqr st2 = Inr st'"
    and lower: "- 1 \<le> tumbler_i st'"
    and ok: "list_all (\<lambda>d. 0 \<le> d \<and> d < numsqrs) (sqrindextumbler st')"
    and adv: "if tumbler_i st' = tumbler_i st2 then sqrindextumbler st' = sqrindextumbler st2
            else 0 \<le> tumbler_i st' \<longrightarrow>
                 sqrindextumbler st2 ! nat (tumbler_i st') < sqrindextumbler st' ! nat (tumbler_i st')"
    by blast
  from carry_facts [OF rec] have facts: "length (sqrindextumbler st') = n"
    "subtotaltumbler st' = subtotaltumbler st" "tumbler_i st' \<le> ?i"
    and below: "\<And>j. int j < tumbler_i st' \<Longrightarrow> sqrindextumbler st' ! j = sqrindextumbler st2 ! j"
    using len by (simp_all add: st2)
  have ready: "tumbler_ready numsqrs n st'"
    using facts lower ok len i' by (simp add: tumbler_ready_def)
  have "ahead st' st" if pos: "0 \<le> tumbler_i st'"
  proof -
    let ?k = "nat (tumbler_i st')"
    have k: "?k \<le> nat ?i" "?k < n" using facts(3) pos i' by simp_all
    have "sqrindextumbler st' ! j = ?ds ! j" if "j < ?k" for j
    proof -
      from that pos have "int j < tumbler_i st'" by simp
      then have "sqrindextumbler st' ! j = sqrindextumbler st2 ! j" by (rule below)
      moreover from that k have "j \<noteq> nat ?i" by simp
      ultimately show ?thesis by (simp add: st2)
    qed
    then have same: "take ?k (sqrindextumbler st') = take ?k ?ds"
      using k facts(1) len by (intro nth_take_lemma) simp_all
    have "?ds ! ?k < sqrindextumbler st' ! ?k"
    proof (cases "tumbler_i st' = ?i")
      case True
      with adv have "sqrindextumbler st' = sqrindextumbler st2" by (simp add: st2)
      with True new(1) i' len show ?thesis by (simp add: st2)
    next
      case False
      with adv pos have "sqrindextumbler st2 ! ?k < sqrindextumbler st' ! ?k"
        by (simp add: st2)
      moreover from False facts(3) pos have "?k \<noteq> nat ?i" by linarith
      ultimately show ?thesis by (simp add: st2)
    qed
    with same show ?thesis by (simp add: ahead_def)
  qed
  with run rec ready show ?thesis by simp
qed

text \<open>
  One pass of the outer loop, from a state with \<open>i \<ge> 0\<close> and all square indices inside the
  table: no read fails, the next state is of the same kind, and when the loop goes on the
  square indices have moved ahead.
\<close>

lemma tumbler_step_returns:
  assumes ready: "tumbler_ready numsqrs n st" and pos: "0 \<le> tumbler_i st"
    and n: "2 \<le> n" and bounds: "1 \<le> numsqrs" "numsqrs \<le> MAXB - 1"
  shows "\<exists>st'. tumbler_step (sqrs_table (nat numsqrs)) numsqrs (int n - 1) b_min_sqr b_max_sqr st
             = Inr st' \<and>
           tumbler_ready numsqrs n st' \<and> (0 \<le> tumbler_i st' \<longrightarrow> ahead st' st)"
proof -
  let ?sqrs = "sqrs_table (nat numsqrs)"
  from ready have len: "length (sqrindextumbler st) = n" "length (subtotaltumbler st) = n"
    and i: "tumbler_i st < int n"
    and range: "list_all (\<lambda>d. 0 \<le> d \<and> d < numsqrs) (sqrindextumbler st)"
    by (simp_all add: tumbler_ready_def)
  have "\<exists>st1. fill_subtotals ?sqrs (int n - 1) st = Inr st1 \<and>
           sqrindextumbler st1 = sqrindextumbler st \<and> length (subtotaltumbler st1) = n \<and>
           tumbler_i st1 = max (tumbler_i st) (int n - 1)"
    using len pos range by (intro fill_subtotals_returns [where numsqrs = numsqrs]) simp_all
  then obtain st1 where fill: "fill_subtotals ?sqrs (int n - 1) st = Inr st1"
    and st1: "sqrindextumbler st1 = sqrindextumbler st" "length (subtotaltumbler st1) = n"
      "tumbler_i st1 = int n - 1"
    using i by auto
  have "\<exists>st2. last_subtotal ?sqrs numsqrs b_min_sqr st1 = Inr st2"
    using bounds st1 len n range
    by (intro last_subtotal_returns [where n = n]) simp_all
  then obtain st2 where skip: "last_subtotal ?sqrs numsqrs b_min_sqr st1 = Inr st2" ..
  from last_subtotal_facts [OF skip refl bounds(2), of n] st1 len
  obtain d' where st2: "tumbler_i st2 = int n - 1"
    "sqrindextumbler st2 = (sqrindextumbler st)[n - 1 := d']"
    "subtotaltumbler st2 = (subtotaltumbler st1)
       [n - 1 := subtotaltumbler st1 ! nat (int n - 1 - 1) + (d' + 1) * (d' + 1)]"
    and d': "0 \<le> d'" "d' < numsqrs" "sqrindextumbler st ! (n - 1) \<le> d'"
    by (auto simp: nat_diff_distrib)
  have range2: "list_all (\<lambda>d. 0 \<le> d \<and> d < numsqrs) (sqrindextumbler st2)"
    unfolding list_all_length st2
  proof (intro allI impI)
    fix j assume "j < length ((sqrindextumbler st)[n - 1 := d'])"
    then have j: "j < length (sqrindextumbler st)" by simp
    with in_range_nth [OF range j] d'
    show "0 \<le> (sqrindextumbler st)[n - 1 := d'] ! j \<and> (sqrindextumbler st)[n - 1 := d'] ! j < numsqrs"
      by (cases "j = n - 1") simp_all
  qed
  have "\<exists>st'. test_and_advance numsqrs b_min_sqr b_max_sqr st2 = Inr st' \<and>
           tumbler_ready numsqrs n st' \<and> (0 \<le> tumbler_i st' \<longrightarrow> ahead st' st2)"
    using bounds n range2 len st1
    by (intro test_and_advance_returns) (simp_all add: st2)
  then obtain st' where run: "test_and_advance numsqrs b_min_sqr b_max_sqr st2 = Inr st'"
    and ready': "tumbler_ready numsqrs n st'"
    and adv: "0 \<le> tumbler_i st' \<longrightarrow> ahead st' st2"
    by blast
  have "ahead st' st" if pos': "0 \<le> tumbler_i st'"
  proof -
    let ?k = "nat (tumbler_i st')"
    from ready' have "tumbler_i st' < int n" by (simp add: tumbler_ready_def)
    with pos' have k: "?k \<le> n - 1" by linarith
    from adv pos' have a: "take ?k (sqrindextumbler st') = take ?k (sqrindextumbler st2)"
      "sqrindextumbler st2 ! ?k < sqrindextumbler st' ! ?k"
      by (simp_all add: ahead_def)
    from k have "take ?k (sqrindextumbler st2) = take ?k (sqrindextumbler st)"
      by (simp add: st2)
    moreover have "sqrindextumbler st ! ?k \<le> sqrindextumbler st2 ! ?k"
      using d'(3) len n by (cases "?k = n - 1") (simp_all add: st2)
    ultimately show ?thesis using a by (simp add: ahead_def)
  qed
  with fill skip run ready' show ?thesis by (simp add: tumbler_step_def)
qed

text \<open>
  The square indices that have moved ahead are smaller in the lexicographic order of the
  distances to \<open>numsqrs\<close>, which is well-founded.
\<close>

lemma ahead_lex:
  assumes "ahead st' st" "tumbler_ready numsqrs n st'" "tumbler_ready numsqrs n st"
    "0 \<le> tumbler_i st'"
  shows "(map (\<lambda>d. nat (numsqrs - d)) (sqrindextumbler st'),
          map (\<lambda>d. nat (numsqrs - d)) (sqrindextumbler st)) \<in> lex less_than"
proof -
  let ?f = "\<lambda>d. nat (numsqrs - d)"
  let ?k = "nat (tumbler_i st')"
  let ?xs = "sqrindextumbler st'" and ?ys = "sqrindextumbler st"
  from assms have len: "length ?xs = n" "length ?ys = n" and "tumbler_i st' < int n"
    and range: "list_all (\<lambda>d. 0 \<le> d \<and> d < numsqrs) ?xs"
    by (simp_all add: tumbler_ready_def)
  with assms(4) have k: "?k < n" by linarith
  from assms(1) have same: "take ?k ?xs = take ?k ?ys" and less: "?ys ! ?k < ?xs ! ?k"
    by (simp_all add: ahead_def)
  from in_range_nth [OF range, of ?k] k len have "?xs ! ?k < numsqrs" by simp
  with less have dec: "?f (?xs ! ?k) < ?f (?ys ! ?k)" by simp
  have xs: "map ?f ?xs = map ?f (take ?k ?xs) @ ?f (?xs ! ?k) # map ?f (drop (Suc ?k) ?xs)"
    using k len id_take_nth_drop [of ?k ?xs] by (metis list.simps(9) map_append)
  have ys: "map ?f ?ys = map ?f (take ?k ?xs) @ ?f (?ys ! ?k) # map ?f (drop (Suc ?k) ?ys)"
    using k len id_take_nth_drop [of ?k ?ys] same by (metis list.simps(9) map_append)
  have "length (map ?f ?xs) = length (map ?f ?ys)" using len by simp
  moreover have "\<exists>xys x y xs' ys'. map ?f ?xs = xys @ x # xs' \<and> map ?f ?ys = xys @ y # ys' \<and>
      (x, y) \<in> less_than"
    using xs ys dec by (metis less_than_iff)
  ultimately show ?thesis unfolding lex_conv by blast
qed

text \<open>
  The enumeration ends, without a failing read, from every state whose square indices are
  inside the table, when there are at least two tumblers and at least one square.
\<close>

lemma tumbler_loop_returns:
  assumes ready: "tumbler_ready numsqrs n st"
    and n: "2 \<le> n" and bounds: "1 \<le> numsqrs" "numsqrs \<le> MAXB - 1"
  shows "\<exists>st'. tumbler_loop (sqrs_table (nat numsqrs)) numsqrs (int n - 1) b_min_sqr b_max_sqr st
           = Some (Inr st')"
proof -
  let ?P = "\<lambda>r :: error + tumblers. case r of Inl e \<Rightarrow> False | Inr s \<Rightarrow> tumbler_ready numsqrs n s"
  let ?c = "\<lambda>r. case r of Inl e \<Rightarrow> Inl e
      | Inr s \<Rightarrow> tumbler_step (sqrs_table (nat numsqrs)) numsqrs (int n - 1) b_min_sqr b_max_sqr s"
  let ?m = "\<lambda>r :: error + tumblers.
      (if running r then 1 else 0 :: nat,
       case r of Inl e \<Rightarrow> [] | Inr s \<Rightarrow> map (\<lambda>d. nat (numsqrs - d)) (sqrindextumbler s))"
  have step: "?P (?c r) \<and> (?c r, r) \<in> inv_image (less_than <*lex*> lex less_than) ?m"
    if "?P r" "running r" for r
  proof -
    from that obtain s where r: "r = Inr s" and s: "tumbler_ready numsqrs n s" "0 \<le> tumbler_i s"
      by (cases r) (simp_all add: running_def)
    from tumbler_step_returns [OF s n bounds, of b_min_sqr b_max_sqr]
    obtain s' where run: "?c r = Inr s'" and s': "tumbler_ready numsqrs n s'"
      and adv: "0 \<le> tumbler_i s' \<longrightarrow> ahead s' s"
      unfolding r by auto
    show ?thesis
    proof (cases "0 \<le> tumbler_i s'")
      case True
      with adv have "ahead s' s" by simp
      from ahead_lex [OF this s' s(1) True] show ?thesis
        unfolding run using s' True s(2) by (simp add: r running_def)
    next
      case False
      then show ?thesis unfolding run using s' s(2) by (simp add: r running_def)
    qed
  qed
  have pres: "?P (?c r)" if "?P r \<and> running r" for r using step that by blast
  have wf: "wf {(t, s). (?P s \<and> running s) \<and> t = ?c s}"
  proof (rule wf_subset)
    show "wf (inv_image (less_than <*lex*> lex less_than) ?m)"
      by (intro wf_inv_image wf_lex_prod wf_lex wf_less_than)
    show "{(t, s). (?P s \<and> running s) \<and> t = ?c s} \<subseteq> inv_image (less_than <*lex*> lex less_than) ?m"
      using step by blast
  qed
  have "\<exists>t. while_option running ?c (Inr st) = Some t"
    by (rule wf_while_option_Some [where P = ?P, OF wf pres]) (use ready in simp_all)
  then obtain t where t: "while_option running ?c (Inr st) = Some t" ..
  have "?P t"
  proof (rule while_option_rule [where P = ?P and b = running and c = ?c, OF _ t])
    show "?P (Inr st)" using ready by simp
    show "?P (?c r)" if "?P r" "running r" for r using step that by blast
  qed
  then obtain st' where "t = Inr st'" by (cases t) simp_all
  with t show ?thesis by (simp add: tumbler_loop_def)
qed

lemma tumbler_ready_initial:
  "0 < n \<Longrightarrow> 1 \<le> numsqrs \<Longrightarrow> tumbler_ready numsqrs n
     \<lparr>tumbler_i = 0, sqrindextumbler = replicate n 0, subtotaltumbler = replicate n 0,
      tmp_table = []\<rparr>"
  by (simp add: tumbler_ready_def list_all_length)

text \<open>
  \<^verbatim>\<open>BuildNTuples\<close> of ptuples returns a table for every tuple size from 3 and every \<open>b_max\<close>
  from 2 that \<^verbatim>\<open>main\<close> accepts.
\<close>

lemma BuildNTuples_returns:
  assumes args: "1 \<le> b_min" "b_min \<le> b_max" "2 \<le> b_max" "b_max \<le> MAXB" "3 \<le> N"
  shows "\<exists>tuples. BuildNTuples [] DoOnlyPrimitives b_min b_max N = Some (Inr ([], tuples))"
proof -
  define n where "n = nat (N - 1)"
  define numsqrs where "numsqrs = mpz_get_ui (b_max - 1)"
  have numsqrs: "1 \<le> numsqrs" "numsqrs \<le> MAXB - 1"
    using args by (simp_all add: numsqrs_def mpz_get_ui_def MAXB_def)
  have n: "0 < n" "2 \<le> n" "N - 1 - 1 = int n - 1" "nat (N - 1) = n"
    using args by (simp_all add: n_def)
  let ?st0 = "\<lparr>tumbler_i = 0, sqrindextumbler = replicate n 0, subtotaltumbler = replicate n 0,
               tmp_table = []\<rparr>"
  let ?loop = "tumbler_loop (sqrs_table (nat numsqrs)) numsqrs (int n - 1) (b_min * b_min)
             (b_max * b_max) ?st0"
  have unfold: "BuildNTuples [] DoOnlyPrimitives b_min b_max N =
      (case ?loop of
         None \<Rightarrow> None
       | Some (Inl e) \<Rightarrow> Some (Inl e)
       | Some (Inr st) \<Rightarrow>
           (case RemDupTuples (tmp_table st) of
              Inl e \<Rightarrow> Some (Inl e)
            | Inr tmp \<Rightarrow> Some (Inr (move_tuples DoOnlyPrimitives tmp ([], [])))))"
    unfolding BuildNTuples_def Let_def numsqrs_def n ..
  from tumbler_loop_returns [OF tumbler_ready_initial [OF n(1) numsqrs(1)] n(2) numsqrs]
  obtain st where loop: "?loop = Some (Inr st)" by blast
  have "tumbler_inv numsqrs n b_min b_max st"
  proof (rule tumbler_loop_inv [OF loop])
    show "tumbler_inv numsqrs n b_min b_max ?st0"
      by (rule tumbler_inv_initial [OF n(1)])
    show "numsqrs \<le> MAXB - 1" by (rule numsqrs(2))
    show "0 \<le> b_max" using args(3) by simp
  qed
  then have entries: "\<forall>e \<in> set (tmp_table st). entry_sound b_min b_max e \<and> entry_canonical n e"
    by (simp add: tumbler_inv_def)
  then have uni: "uniform n (tmp_table st)" and asc: "\<forall>e \<in> set (tmp_table st). sorted (tentry_a e)"
    by (simp_all add: uniform_iff entry_canonical_def)
  have dedup: "RemDupTuples (tmp_table st) =
      Inr (collapse_runs (qsort ttable_tentry_cmpfunc (tmp_table st)))"
    using uni asc by (rule RemDupTuples_collapse)
  obtain out tuples where moved: "move_tuples DoOnlyPrimitives
      (collapse_runs (qsort ttable_tentry_cmpfunc (tmp_table st))) ([], []) = (out, tuples)"
    by (cases "move_tuples DoOnlyPrimitives
      (collapse_runs (qsort ttable_tentry_cmpfunc (tmp_table st))) ([], [])")
  have run: "BuildNTuples [] DoOnlyPrimitives b_min b_max N = Some (Inr (out, tuples))"
    unfolding unfold loop by (simp add: dedup moved)
  from BuildNTuples_result [OF run args(1,2,4,5)] have "out = []" by simp
  with run show ?thesis by blast
qed

text \<open>
  On every command line that passes the checks of \<^verbatim>\<open>main\<close> and has \<open>b_max \<ge> 2\<close>, ptuples
  ends, returns 0 and prints tuple lines only: those of a table of sound entries in
  canonical form and order.
\<close>

theorem ptuples_valid_exit_0:
  assumes "argc c = 4 \<or> argc c = 5" "3 \<le> tuple_size c" "1 \<le> user_b_min c"
    "user_b_min c \<le> user_b_max c" "2 \<le> user_b_max c" "user_b_max c \<le> MAXB"
  shows "\<exists>tuples. ptuples_main c = Some (Inr (print_tuples tuples, 0)) \<and>
           table_ok (user_b_min c) (user_b_max c) (nat (tuple_size c - 1)) tuples \<and>
           sorted_wrt canonical_le tuples"
proof -
  from BuildNTuples_returns [OF assms(3,4,5,6,2), of "argc c = 5 \<and> argv1_is_p c"]
  obtain tuples where run: "BuildNTuples [] (argc c = 5 \<and> argv1_is_p c) (user_b_min c)
      (user_b_max c) (tuple_size c) = Some (Inr ([], tuples))"
    by blast
  then have main: "ptuples_main c = Some (Inr (print_tuples tuples, 0))"
    unfolding ptuples_main_valid [OF assms(1,2,3,4,6)] by simp
  from BuildNTuples_result [OF run assms(3,4,6,2)]
  have "table_ok (user_b_min c) (user_b_max c) (nat (tuple_size c - 1)) tuples"
    and "sorted_wrt canonical_le tuples"
    by (simp_all add: table_ok_def list_all_iff)
  with main show ?thesis by blast
qed

theorem ptuples_valid_exit_0_witness:
  "ptuples_main \<lparr>argc = 4, argv1_is_p = False, tuple_size = 3, user_b_min = 1, user_b_max = 5\<rparr> =
     Some (Inr (print_tuples [\<lparr>tentry_a = [3, 4], tentry_b = 5\<rparr>], 0))"
proof -
  let ?c = "\<lparr>argc = 4, argv1_is_p = False, tuple_size = 3, user_b_min = 1, user_b_max = 5\<rparr>"
  have "\<exists>tuples. ptuples_main ?c = Some (Inr (print_tuples tuples, 0)) \<and>
      table_ok (user_b_min ?c) (user_b_max ?c) (nat (tuple_size ?c - 1)) tuples \<and>
      sorted_wrt canonical_le tuples"
    by (rule ptuples_valid_exit_0) (simp_all add: MAXB_def)
  moreover have "ptuples_main ?c = Some (Inr ([TupleLine [3, 4] 5], 0))"
    by code_simp
  ultimately show ?thesis by (simp add: print_tuples_def)
qed

subsection \<open>The first entry of a run of equal b-values\<close>

text \<open>
  On a table sorted by \<open>b\<close> the binary search finds an entry with the b-value of the key
  whenever the range \<open>[l, u)\<close> holds one.
\<close>

lemma bsearch_loop_complete:
  assumes "sorted (map tentry_b base)" "u \<le> length base"
    and "\<exists>i. l \<le> i \<and> i < u \<and> tentry_b (base ! i) = B"
  shows "\<exists>idx. bsearch_loop ttable_tentry_Bonly_cmpfunc \<lparr>tentry_a = [], tentry_b = B\<rparr> base l u
           = Some idx"
  using assms
proof (induction ttable_tentry_Bonly_cmpfunc "\<lparr>tentry_a = [], tentry_b = B\<rparr>" base l u
    rule: bsearch_loop.induct)
  case (1 base l u)
  let ?key = "\<lparr>tentry_a = [], tentry_b = B\<rparr>"
  let ?idx = "(l + u) div 2"
  note unfold = bsearch_loop.simps [of ttable_tentry_Bonly_cmpfunc ?key base l u]
  from "1.prems"(3) obtain i where i: "l \<le> i" "i < u" "tentry_b (base ! i) = B" by blast
  then have lu: "l < u" by simp
  then have idx: "l \<le> ?idx" "?idx < u" by simp_all
  have mono: "tentry_b (base ! j) \<le> tentry_b (base ! k)" if "j \<le> k" "k < length base" for j k
    using "1.prems"(1) that sorted_nth_mono [of "map tentry_b base" j k] by simp
  have cmp: "ttable_tentry_Bonly_cmpfunc ?key (base ! ?idx) = mpz_cmp B (tentry_b (base ! ?idx))"
    by (simp add: ttable_tentry_Bonly_cmpfunc_def)
  consider "B < tentry_b (base ! ?idx)" | "B > tentry_b (base ! ?idx)"
    | "B = tentry_b (base ! ?idx)" by linarith
  then show ?case
  proof cases
    case 1
    have "i < ?idx"
    proof (rule ccontr)
      assume "\<not> i < ?idx"
      then have "tentry_b (base ! ?idx) \<le> tentry_b (base ! i)"
        using i(2) "1.prems"(2) by (intro mono) simp_all
      with 1 i(3) show False by simp
    qed
    with i have "\<exists>i. l \<le> i \<and> i < ?idx \<and> tentry_b (base ! i) = B" by blast
    moreover have "?idx \<le> length base" using idx "1.prems"(2) by simp
    ultimately have "\<exists>r. bsearch_loop ttable_tentry_Bonly_cmpfunc ?key base l ?idx = Some r"
      using 1 lu "1.prems"(1) by (intro "1.hyps"(1) [OF lu refl refl]) (simp_all add: cmp)
    moreover have "bsearch_loop ttable_tentry_Bonly_cmpfunc ?key base l u =
        bsearch_loop ttable_tentry_Bonly_cmpfunc ?key base l ?idx"
      using lu 1 by (subst unfold) (simp add: Let_def cmp)
    ultimately show ?thesis by simp
  next
    case 2
    have "?idx < i"
    proof (rule ccontr)
      assume "\<not> ?idx < i"
      then have "tentry_b (base ! i) \<le> tentry_b (base ! ?idx)"
        using idx "1.prems"(2) by (intro mono) simp_all
      with 2 i(3) show False by simp
    qed
    then have "?idx + 1 \<le> i" by simp
    with i(2,3) have "\<exists>i. ?idx + 1 \<le> i \<and> i < u \<and> tentry_b (base ! i) = B" by blast
    then have "\<exists>r. bsearch_loop ttable_tentry_Bonly_cmpfunc ?key base (?idx + 1) u = Some r"
      using 2 lu "1.prems"(1,2) by (intro "1.hyps"(2) [OF lu refl refl]) (simp_all add: cmp)
    moreover have "bsearch_loop ttable_tentry_Bonly_cmpfunc ?key base l u =
        bsearch_loop ttable_tentry_Bonly_cmpfunc ?key base (?idx + 1) u"
      using lu 2 by (subst unfold) (simp add: Let_def cmp)
    ultimately show ?thesis by simp
  next
    case 3
    then have "ttable_tentry_Bonly_cmpfunc ?key (base ! ?idx) = 0"
      by (simp add: ttable_tentry_Bonly_cmpfunc_def)
    then have "bsearch_loop ttable_tentry_Bonly_cmpfunc ?key base l u = Some ?idx"
      using lu by (subst unfold) (simp add: Let_def)
    then show ?thesis by simp
  qed
qed

text \<open>
  Where the backward scan stops: at index 1 or below, or behind an entry with another
  b-value.
\<close>

lemma scan_back_stop:
  "scan_back the_table B index \<le> 1 \<or>
   tentry_b (the_table ! nat (scan_back the_table B index - 1)) \<noteq> B"
proof (induction the_table B index rule: scan_back.induct)
  case (1 the_table B index)
  show ?case
  proof (cases "index > 1 \<and> mpz_cmp (tentry_b (the_table ! nat (index - 1))) B = 0")
    case True
    then have "scan_back the_table B index = scan_back the_table B (index - 1)"
      by (subst scan_back.simps) simp
    with "1.IH" [OF True] show ?thesis by simp
  next
    case False
    then have "scan_back the_table B index = index"
      by (subst scan_back.simps) auto
    with False show ?thesis by auto
  qed
qed

text \<open>
  On a table sorted by \<open>b\<close> in which \<open>B\<close> occurs, the index that \<^verbatim>\<open>GetFirstBIndex\<close> returns
  is that of the first entry with \<open>b = B\<close>, unless entries 0 and 1 both have \<open>b = B\<close>.
\<close>

lemma GetFirstBIndex_sorted:
  assumes sorted: "sorted (map tentry_b the_table)"
    and occurs: "B \<in> tentry_b ` set the_table"
    and start: "\<not> (2 \<le> length the_table \<and> tentry_b (the_table ! 0) = B \<and>
                    tentry_b (the_table ! 1) = B)"
  shows "0 \<le> GetFirstBIndex the_table B \<and>
         nat (GetFirstBIndex the_table B) < length the_table \<and>
         tentry_b (the_table ! nat (GetFirstBIndex the_table B)) = B \<and>
         (\<forall>j < nat (GetFirstBIndex the_table B). tentry_b (the_table ! j) \<noteq> B)"
proof -
  let ?key = "\<lparr>tentry_a = [], tentry_b = B\<rparr>"
  let ?r = "GetFirstBIndex the_table B"
  from occurs obtain i where "i < length the_table" "tentry_b (the_table ! i) = B"
    by (auto simp: in_set_conv_nth)
  then have "\<exists>i. 0 \<le> i \<and> i < length the_table \<and> tentry_b (the_table ! i) = B" by blast
  from bsearch_loop_complete [OF sorted order_refl this]
  obtain p where p: "bsearch ttable_tentry_Bonly_cmpfunc ?key the_table = Some p"
    by (auto simp: bsearch_def)
  then have found: "p < length the_table" "tentry_b (the_table ! p) = B"
    using bsearch_loop_found [of ttable_tentry_Bonly_cmpfunc ?key the_table 0 "length the_table" p]
    by (simp_all add: bsearch_def ttable_tentry_Bonly_cmpfunc_def)
  have res: "?r = scan_back the_table B (int p)"
    using p by (simp add: GetFirstBIndex_def)
  from scan_back_bounds [of "int p" the_table B] found
  have r: "0 \<le> ?r" "?r \<le> int p" "tentry_b (the_table ! nat ?r) = B"
    unfolding res by simp_all
  then have len: "nat ?r < length the_table" using found(1) by linarith
  have mono: "tentry_b (the_table ! j) \<le> tentry_b (the_table ! k)"
    if "j \<le> k" "k < length the_table" for j k
    using sorted that sorted_nth_mono [of "map tentry_b the_table" j k] by simp
  have before: "tentry_b (the_table ! (nat ?r - 1)) \<noteq> B" if "0 < nat ?r"
  proof (cases "?r \<le> 1")
    case True
    with that have one: "nat ?r = 1" by linarith
    with len r(3) start show ?thesis by auto
  next
    case False
    with scan_back_stop [of the_table B "int p"]
    have "tentry_b (the_table ! nat (?r - 1)) \<noteq> B" unfolding res by simp
    moreover have "nat (?r - 1) = nat ?r - 1" by simp
    ultimately show ?thesis by simp
  qed
  have "tentry_b (the_table ! j) \<noteq> B" if "j < nat ?r" for j
  proof -
    from that have pos: "0 < nat ?r" by simp
    have "tentry_b (the_table ! j) \<le> tentry_b (the_table ! (nat ?r - 1))"
      using that len by (intro mono) simp_all
    moreover have "tentry_b (the_table ! (nat ?r - 1)) \<le> B"
      using mono [of "nat ?r - 1" "nat ?r"] len r(3) by simp
    ultimately show ?thesis using before [OF pos] by simp
  qed
  with r len show ?thesis by blast
qed




subsection \<open>The table of triples that qkptuples searches\<close>

text \<open>
  \<^verbatim>\<open>BuildNTuples\<close> of qkptuples calls \<^verbatim>\<open>GetFirstBIndex\<close> on one table only, the sorted result
  of \<^verbatim>\<open>Build3Tuples\<close> in non-primitive mode from \<open>b = 5\<close>.  That table holds the triple
  \<open>(3, 4, 5)\<close> once and no other entry with \<open>b = 5\<close>: Euclid's formula gives \<open>c = 5\<close> only
  for \<open>m = 2\<close>, \<open>n = 1\<close>, and the multiple \<open>k = 1\<close>.
\<close>

lemma fives_AddPTriple: "fives (AddPTriple tbl a_0 a_1 b) = fives tbl + (if b = 5 then 1 else 0)"
  by (simp add: fives_def AddPTriple_def MovePTuple_def)

lemma fives_qsort [simp]: "fives (qsort cmpfunc tbl) = fives tbl"
proof -
  have "size (filter_mset (\<lambda>e. tentry_b e = 5) (mset (qsort cmpfunc tbl))) =
        size (filter_mset (\<lambda>e. tentry_b e = 5) (mset tbl))"
    by simp
  then show ?thesis
    unfolding fives_def by (metis mset_filter size_mset)
qed

lemma product_5:
  assumes "5 \<le> c" "1 \<le> k"
  shows "c * k = 5 \<longleftrightarrow> c = 5 \<and> k = (1 :: int)"
proof
  assume eq: "c * k = 5"
  have "c * 1 \<le> c * k" using assms by (intro mult_left_mono) simp_all
  with eq assms(1) have c: "c = 5" by simp
  with eq show "c = 5 \<and> k = 1" by simp
qed simp

lemma k_loop_fives:
  assumes "5 \<le> c" "0 \<le> k"
  shows "\<exists>t. k_loop tuples a b c 5 b_max k = Some t \<and>
           fives t = fives tuples + (if c = 5 \<and> k \<le> 1 \<and> 5 \<le> b_max then 1 else 0)"
  using assms(2)
proof (induction "nat (b_max + 1 - c * k)" arbitrary: k tuples rule: less_induct)
  case less
  show ?case
  proof (cases "c * k \<le> b_max")
    case False
    then have "k_loop tuples a b c 5 b_max k = Some tuples"
      by (subst k_loop.simps) simp
    moreover have "\<not> (c = 5 \<and> k \<le> 1 \<and> 5 \<le> b_max)"
    proof
      assume *: "c = 5 \<and> k \<le> 1 \<and> 5 \<le> b_max"
      then have "c * k \<le> 5" by simp
      with * False show False by simp
    qed
    ultimately show ?thesis by simp
  next
    case True
    have smaller: "nat (b_max + 1 - c * (k + 1)) < nat (b_max + 1 - c * k)"
      using True assms(1) by (simp add: algebra_simps)
    have next_k: "0 \<le> k + 1" using less.prems by simp
    show ?thesis
    proof (cases "c * k < 5")
      case below: True
      have "k = 0"
      proof (rule ccontr)
        assume "k \<noteq> 0"
        with less.prems have "1 \<le> k" by simp
        then have "c * 1 \<le> c * k" using assms(1) by (intro mult_left_mono) simp_all
        with below assms(1) show False by simp
      qed
      from less.hyps [OF smaller next_k, of tuples] obtain t where
        "k_loop tuples a b c 5 b_max (k + 1) = Some t"
        "fives t = fives tuples + (if c = 5 \<and> k + 1 \<le> 1 \<and> 5 \<le> b_max then 1 else 0)" by blast
      moreover have "k_loop tuples a b c 5 b_max k = k_loop tuples a b c 5 b_max (k + 1)"
        using True below by (subst k_loop.simps) simp
      ultimately show ?thesis using \<open>k = 0\<close> by simp
    next
      case inside: False
      have k1: "1 \<le> k"
      proof (rule ccontr)
        assume "\<not> 1 \<le> k"
        with less.prems have "k = 0" by simp
        with inside show False by simp
      qed
      let ?tuples = "AddPTriple tuples (a * k) (b * k) (c * k)"
      from less.hyps [OF smaller next_k, of ?tuples] obtain t where
        "k_loop ?tuples a b c 5 b_max (k + 1) = Some t"
        "fives t = fives ?tuples + (if c = 5 \<and> k + 1 \<le> 1 \<and> 5 \<le> b_max then 1 else 0)" by blast
      moreover have "k_loop tuples a b c 5 b_max k = k_loop ?tuples a b c 5 b_max (k + 1)"
        using True inside by (subst k_loop.simps) simp
      moreover have "(c * k = 5) = (c = 5 \<and> k \<le> 1 \<and> 5 \<le> b_max)"
        using product_5 [OF assms(1) k1] k1 True by auto
      ultimately show ?thesis using k1 by (simp add: fives_AddPTriple)
    qed
  qed
qed

lemma euclid_5:
  assumes "1 \<le> n" "n < m"
  shows "5 \<le> m * m + n * n" "m * m + n * n = 5 \<longleftrightarrow> m = 2 \<and> n = (1 :: int)"
proof -
  from assms have m: "2 \<le> m" by simp
  then have mm: "2 * 2 \<le> m * m" by (intro mult_mono) simp_all
  from assms(1) have nn: "1 * 1 \<le> n * n" by (intro mult_mono) simp_all
  from mm nn show "5 \<le> m * m + n * n" by simp
  show "m * m + n * n = 5 \<longleftrightarrow> m = 2 \<and> n = 1"
  proof
    assume eq: "m * m + n * n = 5"
    have "m = 2"
    proof (rule ccontr)
      assume "m \<noteq> 2"
      with m have "3 \<le> m" by simp
      then have "3 * 3 \<le> m * m" by (intro mult_mono) simp_all
      with nn eq show False by simp
    qed
    moreover have "n = 1"
    proof (rule ccontr)
      assume "n \<noteq> 1"
      with assms(1) have "2 \<le> n" by simp
      then have "2 * 2 \<le> n * n" by (intro mult_mono) simp_all
      with mm eq show False by simp
    qed
    ultimately show "m = 2 \<and> n = 1" by simp
  qed simp
qed

lemma m_loop_fives:
  assumes "1 \<le> n" "n < m"
  shows "\<exists>t. m_loop tuples False 5 b_max 1 n m_max m = Some t \<and>
           fives t = fives tuples +
             (if n = 1 \<and> m = 2 \<and> 2 \<le> m_max \<and> 5 \<le> b_max then 1 else 0)"
  using assms(2)
proof (induction "nat (m_max + 1 - m)" arbitrary: m tuples rule: less_induct)
  case less
  let ?c = "m * m + n * n"
  note unfold = m_loop.simps [of tuples False 5 b_max 1 n m_max m]
  note c = euclid_5 [OF assms(1) less.prems]
  show ?case
  proof (cases "m \<le> m_max")
    case False
    then have "m_loop tuples False 5 b_max 1 n m_max m = Some tuples"
      by (simp add: unfold)
    with False show ?thesis by auto
  next
    case cont: True
    have smaller: "nat (m_max + 1 - (m + 2)) < nat (m_max + 1 - m)" using cont by simp
    have next_m: "n < m + 2" "m + 2 \<noteq> 2" using less.prems assms(1) by simp_all
    have rest: "\<exists>t. m_loop tbl False 5 b_max 1 n m_max (m + 2) = Some t \<and> fives t = fives tbl"
      for tbl
      using less.hyps [OF smaller next_m(1), of tbl] next_m(2) by simp
    show ?thesis
    proof (cases "mpz_gcd m n = 1")
      case False
      have "m_loop tuples False 5 b_max 1 n m_max m = m_loop tuples False 5 b_max 1 n m_max (m + 2)"
        by (subst unfold) (use cont False in simp)
      moreover have "\<not> (n = 1 \<and> m = 2)"
        using False by (auto simp: mpz_gcd_def)
      ultimately show ?thesis using rest [of tuples] by auto
    next
      case coprime: True
      have lo: "\<not> ?c < 1" using c(1) by simp
      show ?thesis
      proof (cases "b_max < ?c")
        case True
        have "m_loop tuples False 5 b_max 1 n m_max m = m_loop tuples False 5 b_max 1 n m_max (m + 2)"
          by (subst unfold) (use cont coprime lo True in simp)
        moreover have "\<not> (n = 1 \<and> m = 2 \<and> 5 \<le> b_max)"
          using True by auto
        ultimately show ?thesis using rest [of tuples] by auto
      next
        case hi: False
        have k: "0 \<le> 5 div ?c" "5 div ?c \<le> 1"
        proof -
          show "0 \<le> 5 div ?c" using c(1) by (simp add: pos_imp_zdiv_nonneg_iff)
          have "5 div ?c \<le> 5 div 5" using c(1) by (intro zdiv_mono2) simp_all
          then show "5 div ?c \<le> 1" by simp
        qed
        from k_loop_fives [OF c(1) k(1), of tuples "m * m - n * n" "m * n * 2" b_max]
        obtain t where t: "k_loop tuples (m * m - n * n) (m * n * 2) ?c 5 b_max (5 div ?c) = Some t"
          "fives t = fives tuples + (if ?c = 5 \<and> 5 \<le> b_max then 1 else 0)"
          using k(2) by auto
        have "m_loop tuples False 5 b_max 1 n m_max m = m_loop t False 5 b_max 1 n m_max (m + 2)"
          by (subst unfold) (use cont coprime lo hi t(1) in simp)
        moreover have "(?c = 5 \<and> 5 \<le> b_max) = (n = 1 \<and> m = 2 \<and> 2 \<le> m_max \<and> 5 \<le> b_max)"
          using c(2) cont by auto
        ultimately show ?thesis using rest [of t] t(2) by auto
      qed
    qed
  qed
qed

lemma first_m_1: "1 \<le> n \<Longrightarrow> first_m 1 n = n + 1"
proof -
  assume n: "1 \<le> n"
  then have "1 * 1 \<le> n * n" by (intro mult_mono) simp_all
  then have "1 - n * n < 1" by simp
  moreover have "mpz_sqrt 1 = 1" by code_simp
  ultimately show ?thesis using n by (simp add: first_m_def Let_def)
qed

lemma mpz_sqrt_at_least:
  assumes "0 \<le> k" "k * k \<le> x"
  shows "k \<le> mpz_sqrt x"
proof (rule ccontr)
  assume "\<not> k \<le> mpz_sqrt x"
  then have "mpz_sqrt x + 1 \<le> k" by simp
  then have "(mpz_sqrt x + 1) * (mpz_sqrt x + 1) \<le> k * k"
    using assms(1) by (intro mult_mono) simp_all
  with mpz_sqrt_upper [of x] assms(2) show False by simp
qed

lemma n_loop_fives:
  assumes "1 \<le> n"
  shows "\<exists>t. n_loop tuples False 5 b_max 1 n_max n = Some t \<and>
           fives t = fives tuples +
             (if n = 1 \<and> 1 \<le> n_max \<and> 2 \<le> last_m b_max 1 \<and> 5 \<le> b_max then 1 else 0)"
  using assms
proof (induction "nat (n_max + 1 - n)" arbitrary: n tuples rule: less_induct)
  case less
  note unfold = n_loop.simps [of tuples False 5 b_max 1 n_max n]
  show ?case
  proof (cases "n \<le> n_max")
    case False
    then have "n_loop tuples False 5 b_max 1 n_max n = Some tuples"
      by (simp add: unfold)
    with False show ?thesis by auto
  next
    case True
    have smaller: "nat (n_max + 1 - (n + 1)) < nat (n_max + 1 - n)" using True by simp
    have next_n: "1 \<le> n + 1" "n + 1 \<noteq> 1" using less.prems by simp_all
    from m_loop_fives [of n "n + 1" tuples b_max "last_m b_max n"] less.prems
    obtain t where t: "m_loop tuples False 5 b_max 1 n (last_m b_max n) (n + 1) = Some t"
      "fives t = fives tuples +
         (if n = 1 \<and> 2 \<le> last_m b_max n \<and> 5 \<le> b_max then 1 else 0)"
      by auto
    from less.hyps [OF smaller next_n(1), of t] next_n(2)
    obtain t' where t': "n_loop t False 5 b_max 1 n_max (n + 1) = Some t'" "fives t' = fives t"
      by auto
    have "n_loop tuples False 5 b_max 1 n_max n = Some t'"
      by (subst unfold) (use True t(1) t'(1) less.prems in \<open>simp add: first_m_1\<close>)
    with t(2) t'(2) True show ?thesis by auto
  qed
qed

lemma Build3Tuples_fives:
  "\<exists>t. Build3Tuples [] False 5 b_max = Some t \<and> table_ok 5 b_max 2 t \<and>
        fives t = (if 5 \<le> b_max then 1 else 0)"
proof -
  let ?n_max = "mpz_sqrt (- ((- b_max) div 2))"
  from n_loop_fives [of 1 "[]" b_max ?n_max]
  obtain t where t: "n_loop [] False 5 b_max 1 ?n_max 1 = Some t"
    "fives t = (if 1 \<le> ?n_max \<and> 2 \<le> last_m b_max 1 \<and> 5 \<le> b_max then 1 else 0)"
    by (auto simp: fives_def)
  have run: "Build3Tuples [] False 5 b_max = Some t"
    using t(1) by (simp add: Build3Tuples_def)
  from Build3Tuples_total [of 5 b_max "[]" False] run have ok: "table_ok 5 b_max 2 t" by simp
  have "1 \<le> ?n_max \<and> 2 \<le> last_m b_max 1" if "5 \<le> b_max"
  proof
    from that have "1 * 1 \<le> - ((- b_max) div 2)" by simp
    then show "1 \<le> ?n_max" by (intro mpz_sqrt_at_least) simp_all
    from that have "2 * 2 \<le> b_max - 1 * 1" by simp
    then have "2 \<le> mpz_sqrt (b_max - 1 * 1)" by (intro mpz_sqrt_at_least) simp_all
    with that show "2 \<le> last_m b_max 1" by (simp add: last_m_def Let_def)
  qed
  with t(2) have "fives t = (if 5 \<le> b_max then 1 else 0)" by auto
  with run ok show ?thesis by simp
qed

lemma canonical_sorted_by_b:
  assumes "sorted_wrt canonical_le tbl"
  shows "sorted (map tentry_b tbl)"
proof -
  have "sorted_wrt (\<lambda>e1 e2. tentry_b e1 \<le> tentry_b e2) tbl"
    using assms by (rule sorted_wrt_mono_rel [rotated]) (auto simp: canonical_le_def)
  then show ?thesis by (simp add: sorted_map)
qed

text \<open>Entries 0 and 1 of the sorted table of triples never have the same b-value.\<close>

lemma helper_table_start:
  assumes run: "Build3Tuples [] False 5 b_max = Some t"
  shows "sorted (map tentry_b (qsort ttable_tentry_cmpfunc t)) \<and>
         \<not> (2 \<le> length (qsort ttable_tentry_cmpfunc t) \<and>
            tentry_b (qsort ttable_tentry_cmpfunc t ! 0) = B \<and>
            tentry_b (qsort ttable_tentry_cmpfunc t ! 1) = B)"
proof -
  let ?T = "qsort ttable_tentry_cmpfunc t"
  from Build3Tuples_fives [of b_max] run
  have ok: "table_ok 5 b_max 2 t" and five: "fives t = (if 5 \<le> b_max then 1 else 0)"
    by simp_all
  from ok have "uniform 2 t" by (simp add: table_ok_iff uniform_iff entry_canonical_def)
  then have "sorted_wrt canonical_le ?T" by (rule sorted_canonical_qsort)
  then have sorted: "sorted (map tentry_b ?T)" by (rule canonical_sorted_by_b)
  have range: "5 \<le> tentry_b e \<and> tentry_b e \<le> b_max" if "e \<in> set ?T" for e
    using ok that by (simp add: table_ok_iff entry_sound_def)
  have "False" if len: "2 \<le> length ?T" and same: "tentry_b (?T ! 0) = B" "tentry_b (?T ! 1) = B"
  proof -
    from len have pos: "0 < length ?T" by linarith
    then have in0: "?T ! 0 \<in> set ?T" by (rule nth_mem)
    with range have "5 \<le> b_max" "5 \<le> tentry_b (?T ! 0)" by fastforce+
    with five have one: "fives ?T = 1" by simp
    then have "filter (\<lambda>e. tentry_b e = 5) ?T \<noteq> []" by (auto simp: fives_def)
    then obtain e where e: "e \<in> set ?T" "tentry_b e = 5"
      by (metis (mono_tags, lifting) filter_False)
    then obtain i where i: "i < length ?T" "?T ! i = e" by (metis in_set_conv_nth)
    have "tentry_b (?T ! 0) \<le> tentry_b (?T ! i)"
      using sorted i(1) pos sorted_nth_mono [of "map tentry_b ?T" 0 i] by simp
    with i(2) e(2) \<open>5 \<le> tentry_b (?T ! 0)\<close> same have B: "B = 5" by simp
    from len obtain x y rest where T: "?T = x # y # rest"
      by (cases ?T; cases "tl ?T") auto
    with same B have "tentry_b x = 5" "tentry_b y = 5" by simp_all
    then have "2 \<le> fives ?T" unfolding T by (simp add: fives_def)
    with one show False by simp
  qed
  with sorted show ?thesis by blast
qed

text \<open>
  So every call of \<^verbatim>\<open>GetFirstBIndex\<close> that qkptuples makes, with the sorted table of triples
  up to any \<open>b_max\<close> and a value \<open>B\<close> that occurs in it, returns the index of the first
  entry of the run of \<open>B\<close>.
\<close>

theorem GetFirstBIndex_on_helper_table:
  "\<exists>t. Build3Tuples [] False 5 b_max = Some t \<and>
      (\<forall>B \<in> tentry_b ` set t.
         0 \<le> GetFirstBIndex (qsort ttable_tentry_cmpfunc t) B \<and>
         nat (GetFirstBIndex (qsort ttable_tentry_cmpfunc t) B) < length t \<and>
         tentry_b (qsort ttable_tentry_cmpfunc t ! nat (GetFirstBIndex (qsort ttable_tentry_cmpfunc t) B)) = B \<and>
         (\<forall>j < nat (GetFirstBIndex (qsort ttable_tentry_cmpfunc t) B).
            tentry_b (qsort ttable_tentry_cmpfunc t ! j) \<noteq> B))"
proof -
  from Build3Tuples_fives [of b_max] obtain t where run: "Build3Tuples [] False 5 b_max = Some t"
    by blast
  let ?T = "qsort ttable_tentry_cmpfunc t"
  have "0 \<le> GetFirstBIndex ?T B \<and> nat (GetFirstBIndex ?T B) < length t \<and>
      tentry_b (?T ! nat (GetFirstBIndex ?T B)) = B \<and>
      (\<forall>j < nat (GetFirstBIndex ?T B). tentry_b (?T ! j) \<noteq> B)"
    if "B \<in> tentry_b ` set t" for B
  proof -
    from helper_table_start [OF run, of B]
    have "sorted (map tentry_b ?T)"
      "\<not> (2 \<le> length ?T \<and> tentry_b (?T ! 0) = B \<and> tentry_b (?T ! 1) = B)"
      by simp_all
    moreover from that have "B \<in> tentry_b ` set ?T" by simp
    ultimately show ?thesis using GetFirstBIndex_sorted [of ?T B] by simp
  qed
  with run show ?thesis by blast
qed

theorem GetFirstBIndex_on_helper_table_witness:
  "Build3Tuples [] False 5 25 =
     Some [\<lparr>tentry_a = [3, 4], tentry_b = 5\<rparr>, \<lparr>tentry_a = [6, 8], tentry_b = 10\<rparr>,
           \<lparr>tentry_a = [9, 12], tentry_b = 15\<rparr>, \<lparr>tentry_a = [12, 16], tentry_b = 20\<rparr>,
           \<lparr>tentry_a = [15, 20], tentry_b = 25\<rparr>, \<lparr>tentry_a = [8, 15], tentry_b = 17\<rparr>,
           \<lparr>tentry_a = [5, 12], tentry_b = 13\<rparr>, \<lparr>tentry_a = [7, 24], tentry_b = 25\<rparr>] \<and>
   GetFirstBIndex (qsort ttable_tentry_cmpfunc
          [\<lparr>tentry_a = [3, 4], tentry_b = 5\<rparr>, \<lparr>tentry_a = [6, 8], tentry_b = 10\<rparr>,
           \<lparr>tentry_a = [9, 12], tentry_b = 15\<rparr>, \<lparr>tentry_a = [12, 16], tentry_b = 20\<rparr>,
           \<lparr>tentry_a = [15, 20], tentry_b = 25\<rparr>, \<lparr>tentry_a = [8, 15], tentry_b = 17\<rparr>,
           \<lparr>tentry_a = [5, 12], tentry_b = 13\<rparr>, \<lparr>tentry_a = [7, 24], tentry_b = 25\<rparr>]) 25 = 6"
proof -
  let ?t = "[\<lparr>tentry_a = [3, 4], tentry_b = 5\<rparr>, \<lparr>tentry_a = [6, 8], tentry_b = 10\<rparr>,
           \<lparr>tentry_a = [9, 12], tentry_b = 15\<rparr>, \<lparr>tentry_a = [12, 16], tentry_b = 20\<rparr>,
           \<lparr>tentry_a = [15, 20], tentry_b = 25\<rparr>, \<lparr>tentry_a = [8, 15], tentry_b = 17\<rparr>,
           \<lparr>tentry_a = [5, 12], tentry_b = 13\<rparr>, \<lparr>tentry_a = [7, 24], tentry_b = 25\<rparr>]"
  have run: "Build3Tuples [] False 5 25 = Some ?t" by code_simp
  from GetFirstBIndex_on_helper_table [of 25]
  have "0 \<le> GetFirstBIndex (qsort ttable_tentry_cmpfunc ?t) 25"
    unfolding run by simp
  moreover have "GetFirstBIndex (qsort ttable_tentry_cmpfunc ?t) 25 = 6" by code_simp
  ultimately show ?thesis using run by simp
qed

subsection \<open>Unchecked reads of the table of squares\<close>















subsection \<open>Exit codes\<close>








end
